theory Spec2Isabelle
  imports Main "HOL-Library.Word"
begin

section \<open>The interpreter of \<open>brainduck.c\<close>\<close>

text \<open>
  The program reads its script through a \<open>FILE*\<close> and keeps the tape in three globals.
  The embedding follows the C text function by function.

  \<^item> A C \<open>char\<close> is a signed byte (the tape is \<open>char stack[STACK_SIZE]\<close>, and the loops
    that compare a \<open>char\<close> with \<open>EOF\<close> only end on a platform where \<open>char\<close> is signed):
    an \<open>8 word\<close>, promoted to \<open>int\<close> by \<open>sint\<close>. \<open>++\<close> and \<open>--\<close> on a cell wrap around.
  \<^item> \<open>unsigned int\<close> is a \<open>32 word\<close>.
  \<^item> \<open>int\<close> is a HOL \<open>int\<close>: the \<open>int\<close> counters of the program (\<open>level\<close>, \<open>where\<close>, the
    local \<open>depth\<close> of \<open>ffindc_matching\<close>) count bytes of the script, so they stay in range
    for every script shorter than \<open>2^30\<close> bytes, and signed overflow has no defined
    behaviour beyond that.
  \<^item> The script is a \<open>string\<close>, one \<open>char\<close> per byte of the file.
\<close>

type_synonym byte = "8 word"

definition lit :: "char \<Rightarrow> byte" where
  \<comment> \<open>a character literal, as a \<open>char\<close> value\<close>
  "lit c = of_char c"

definition to_char :: "int \<Rightarrow> byte" where
  \<comment> \<open>the conversion of \<open>char c = <int>\<close>\<close>
  "to_char i = word_of_int i"

definition EOF :: int where
  "EOF = - 1"

definition STACK_SIZE :: int where
  "STACK_SIZE = 1000"

datatype Error = ERR_OK | ERR_UNKNOWN_CHAR | ERR_MATCHING_BRACKET | ERR_BOUNDS | ERR_FILE | ERR_UNKNOWN

subsection \<open>The stream\<close>

text \<open>
  An open \<open>FILE\<close> is its contents and its position indicator. \<open>fgetc\<close> returns the byte
  under the indicator as an \<open>unsigned char\<close> and advances, or returns \<open>EOF\<close> and leaves
  the indicator where it is. \<open>fseek(file, n, SEEK_CUR)\<close> moves the indicator by \<open>n\<close>; a
  move to a negative offset fails and leaves it where it is (every caller discards the
  result of \<open>fseek\<close>). The indicator may stand beyond the last byte.
\<close>

record FILE =
  bytes :: string
  fpos :: nat

definition fgetc :: "FILE \<Rightarrow> int \<times> FILE" where
  "fgetc file =
     (if fpos file < length (bytes file)
      then (of_char (bytes file ! fpos file), file\<lparr>fpos := fpos file + 1\<rparr>)
      else (EOF, file))"

definition fseek_cur :: "FILE \<Rightarrow> int \<Rightarrow> FILE" where
  "fseek_cur file n =
     (if int (fpos file) + n < 0 then file
      else file\<lparr>fpos := nat (int (fpos file) + n)\<rparr>)"

definition fseek_set :: "FILE \<Rightarrow> nat \<Rightarrow> FILE" where
  "fseek_set file n = file\<lparr>fpos := n\<rparr>"

definition freadc :: "FILE \<Rightarrow> int \<times> FILE" where
  \<comment> \<open>read one char from file without moving file pointer\<close>
  "freadc file = (let (i, file1) = fgetc file in (i, fseek_cur file1 (- 1)))"

definition fmove :: "FILE \<Rightarrow> int \<Rightarrow> FILE" where
  "fmove file n = fseek_cur file n"

definition fmoveback :: "FILE \<Rightarrow> int \<Rightarrow> FILE" where
  "fmoveback file n = fseek_cur file (- (if n < 0 then - n else n))"

subsection \<open>Scanning\<close>

function ffindc :: "FILE \<Rightarrow> byte \<Rightarrow> int \<times> FILE" where
  "ffindc file c =
     (let (ret, file1) = freadc file in
      if ret = EOF then (ret, file1)
      else if ret = sint c then (ret, file1)
      else ffindc (fmove file1 1) c)"
  by pat_completeness auto
termination
  by (relation "measure (\<lambda>(file, c). length (bytes file) - fpos file)")
     (auto simp: freadc_def fgetc_def fseek_cur_def fmove_def EOF_def split: if_splits)

text \<open>
  The loop of \<open>ffindc_matching\<close>, with its locals \<open>depth\<close> and the normalised \<open>direction\<close>
  as arguments. Scanning backwards it never ends when the seek fails at offset 0 on a
  byte that does not stop it, so its result is an option: \<open>None\<close> is a scan that does not
  return.
\<close>

partial_function (option) ffindc_matching_loop ::
  "FILE \<Rightarrow> int \<Rightarrow> int \<Rightarrow> int \<Rightarrow> int \<Rightarrow> (int \<times> FILE) option" where
  "ffindc_matching_loop file c1 c2 direction depth =
     (case freadc file of (v, file1) \<Rightarrow>
        if v = EOF then Some (v, file1)
        else if v = c1 then ffindc_matching_loop (fmove file1 direction) c1 c2 direction (depth + 1)
        else if v = c2 then
          (if depth = 1 then Some (v, file1)
           else ffindc_matching_loop (fmove file1 direction) c1 c2 direction (depth - 1))
        else ffindc_matching_loop (fmove file1 direction) c1 c2 direction depth)"

definition ffindc_matching :: "FILE \<Rightarrow> byte \<Rightarrow> byte \<Rightarrow> int \<Rightarrow> (int \<times> FILE) option" where
  "ffindc_matching file c1 c2 direction =
     ffindc_matching_loop file (sint c1) (sint c2) (if direction < 0 then - 1 else 1) 0"

subsection \<open>The globals\<close>

text \<open>
  \<open>stackptr\<close> is kept as the index \<open>stackptr - stack\<close>; it leaves \<open>[0, STACK_SIZE)\<close> when
  \<open>>\<close> or \<open><\<close> moves it there. \<open>interpret_file\<close> checks it before every command, so the
  cell \<open>*stackptr\<close> is only read and written inside the array. Standard input is the list
  of the lines still to be read, each one given without the newline that ends it and short
  enough for the buffer of \<open>input_byte\<close>; \<open>getline\<close> keeps that newline, so the first byte
  of an empty line is the newline, 10. Standard output is the bytes written by
  \<open>print_byte\<close>.
\<close>

record globals =
  stack :: "byte list"
  stackptr :: int
  depth :: "32 word"
  stdin :: "string list"
  stdout :: "byte list"

definition globals0 :: "string list \<Rightarrow> globals" where
  \<comment> \<open>the globals when \<open>main\<close> starts\<close>
  "globals0 input =
     \<lparr>stack = replicate (nat STACK_SIZE) 0, stackptr = 0, depth = 0, stdin = input, stdout = []\<rparr>"

definition deref :: "globals \<Rightarrow> byte" where
  \<comment> \<open>\<open>*stackptr\<close>\<close>
  "deref g = stack g ! nat (stackptr g)"

definition assign :: "globals \<Rightarrow> byte \<Rightarrow> globals" where
  \<comment> \<open>\<open>*stackptr = v\<close>\<close>
  "assign g v = g\<lparr>stack := (stack g)[nat (stackptr g) := v]\<rparr>"

definition input_byte :: "globals \<Rightarrow> byte \<times> globals" where
  \<comment> \<open>one line is consumed, its first byte returned; \<open>(char)0\<close> when there is no line\<close>
  "input_byte g =
     (case stdin g of
        [] \<Rightarrow> (0, g)
      | line # rest \<Rightarrow>
          ((case line of [] \<Rightarrow> lit CHR 0x0A | c # _ \<Rightarrow> lit c), g\<lparr>stdin := rest\<rparr>))"

definition print_byte :: "byte \<Rightarrow> globals \<Rightarrow> globals" where
  "print_byte c g = g\<lparr>stdout := stdout g @ [c]\<rparr>"

subsection \<open>Loops\<close>

partial_function (option) jump_forward_loop ::
  "FILE \<Rightarrow> 32 word \<Rightarrow> 32 word \<Rightarrow> FILE option" where
  "jump_forward_loop file current_depth depth0 =
     (case freadc file of (r, file1) \<Rightarrow>
        let c = to_char r in
        if sint c = EOF then Some file1
        else if c = lit CHR ''[''
          then jump_forward_loop (fmove file1 1) (current_depth + 1) depth0
        else if c = lit CHR '']'' then
          (if current_depth = depth0 then Some file1
           else jump_forward_loop (fmove file1 1) (current_depth - 1) depth0)
        else if c = lit CHR ''('' then
          (case ffindc_matching file1 (lit CHR ''('') (lit CHR '')'') 1 of
             None \<Rightarrow> None
           | Some (v, file2) \<Rightarrow> jump_forward_loop (fmove file2 1) current_depth depth0)
        else jump_forward_loop (fmove file1 1) current_depth depth0)"

definition jump_forward :: "FILE \<Rightarrow> globals \<Rightarrow> (FILE \<times> globals) option" where
  "jump_forward file g =
     (let g1 = g\<lparr>depth := depth g + 1\<rparr> in
      if deref g1 \<noteq> 0 then Some (file, g1)
      else case jump_forward_loop (fmove file 1) (depth g1) (depth g1) of
             None \<Rightarrow> None
           | Some file1 \<Rightarrow> Some (file1, g1))"

partial_function (option) jump_backward_loop ::
  "FILE \<Rightarrow> 32 word \<Rightarrow> 32 word \<Rightarrow> FILE option" where
  "jump_backward_loop file current_depth depth0 =
     (case freadc file of (r, file1) \<Rightarrow>
        let c = to_char r in
        if c = lit CHR '']''
          then jump_backward_loop (fmoveback file1 1) (current_depth + 1) depth0
        else if c = lit CHR ''['' then
          (if current_depth = depth0 then Some file1
           else jump_backward_loop (fmoveback file1 1) (current_depth - 1) depth0)
        else if c = lit CHR '')'' then
          (case ffindc_matching file1 (lit CHR '')'') (lit CHR ''('') (- 1) of
             None \<Rightarrow> None
           | Some (v, file2) \<Rightarrow> jump_backward_loop (fmoveback file2 1) current_depth depth0)
        else jump_backward_loop (fmoveback file1 1) current_depth depth0)"

definition jump_backward :: "FILE \<Rightarrow> globals \<Rightarrow> (FILE \<times> globals) option" where
  "jump_backward file g =
     (if deref g = 0 then Some (file, g\<lparr>depth := depth g - 1\<rparr>)
      else case jump_backward_loop (fmoveback file 1) (depth g) (depth g) of
             None \<Rightarrow> None
           | Some file1 \<Rightarrow> Some (fmoveback file1 1, g\<lparr>depth := depth g - 1\<rparr>))"

subsection \<open>The dispatcher\<close>

text \<open>
  \<open>command\<close> is the \<open>switch\<close> of \<open>interpret_file\<close>: \<open>Inl\<close> is its \<open>return\<close>, \<open>Inr\<close> the
  \<open>break\<close> that goes on to \<open>fmove(file, 1)\<close>.
\<close>

definition command :: "byte \<Rightarrow> FILE \<Rightarrow> globals \<Rightarrow> (Error + FILE \<times> globals) option" where
  "command c file g =
     (if c = lit CHR ''>'' then Some (Inr (file, g\<lparr>stackptr := stackptr g + 1\<rparr>))
      else if c = lit CHR ''<'' then Some (Inr (file, g\<lparr>stackptr := stackptr g - 1\<rparr>))
      else if c = lit CHR ''+'' then Some (Inr (file, assign g (deref g + 1)))
      else if c = lit CHR ''-'' then Some (Inr (file, assign g (deref g - 1)))
      else if c = lit CHR ''.'' then Some (Inr (file, print_byte (deref g) g))
      else if c = lit CHR '','' then
        (case input_byte g of (v, g1) \<Rightarrow> Some (Inr (file, assign g1 v)))
      else if c = lit CHR ''['' then map_option Inr (jump_forward file g)
      else if c = lit CHR '']'' then map_option Inr (jump_backward file g)
      else if c = lit CHR 0x0A \<or> c = lit CHR 0x00 then Some (Inr (file, g))
      else if c = lit CHR ''('' then
        (case ffindc_matching file (lit CHR ''('') (lit CHR '')'') 1 of
           None \<Rightarrow> None
         | Some (v, file1) \<Rightarrow> Some (Inr (file1, g)))
      else if c = lit CHR '')'' then Some (Inr (file, g))
      else if c = lit CHR ''#'' then Some (Inr (snd (ffindc file (lit CHR 0x0A)), g))
      else if c = lit CHR '' '' \<or> c = lit CHR 0x0D \<or> c = lit CHR 0x09 then Some (Inr (file, g))
      else Some (Inl ERR_UNKNOWN_CHAR))"

text \<open>
  One pass of the \<open>while\<close> loop of \<open>interpret_file\<close>: \<open>Inl\<close> is a \<open>return\<close> (the loop
  condition failing returns \<open>ERR_OK\<close>), \<open>Inr\<close> the state in which the condition is
  evaluated again.
\<close>

definition iteration :: "FILE \<Rightarrow> globals \<Rightarrow> (Error \<times> FILE \<times> globals + FILE \<times> globals) option" where
  "iteration file g =
     (case freadc file of (r, file1) \<Rightarrow>
        let c = to_char r in
        if sint c = EOF then Some (Inl (ERR_OK, file1, g))
        else if stackptr g < 0 then Some (Inl (ERR_BOUNDS, file1, g\<lparr>stackptr := 0\<rparr>))
        else if stackptr g \<ge> STACK_SIZE
          then Some (Inl (ERR_BOUNDS, file1, g\<lparr>stackptr := STACK_SIZE - 1\<rparr>))
        else (case command c file1 g of
                None \<Rightarrow> None
              | Some (Inl err) \<Rightarrow> Some (Inl (err, file1, g))
              | Some (Inr (file2, g2)) \<Rightarrow> Some (Inr (fmove file2 1, g2))))"

partial_function (option) interpret_file :: "FILE \<Rightarrow> globals \<Rightarrow> (Error \<times> FILE \<times> globals) option" where
  "interpret_file file g =
     (case iteration file g of
        None \<Rightarrow> None
      | Some (Inl result) \<Rightarrow> Some result
      | Some (Inr (file1, g1)) \<Rightarrow> interpret_file file1 g1)"

subsection \<open>Validation and the run\<close>

function check_matching_brackets_loop ::
  "FILE \<Rightarrow> byte \<Rightarrow> byte \<Rightarrow> int \<Rightarrow> int \<Rightarrow> int \<times> int \<times> FILE" where
  "check_matching_brackets_loop file opn cls level wher =
     (case freadc file of (r, file1) \<Rightarrow>
        let c = to_char r in
        if sint c = EOF then (level, wher, file1)
        else check_matching_brackets_loop (fmove file1 1) opn cls
               (if c = opn then level + 1 else if c = cls then level - 1 else level)
               (wher + 1))"
  by pat_completeness auto
termination
  by (relation "measure (\<lambda>(file, opn, cls, level, wher). length (bytes file) - fpos file)")
     (auto simp: freadc_def fgetc_def fseek_cur_def fmove_def EOF_def to_char_def split: if_splits)

definition check_matching_brackets :: "FILE \<Rightarrow> byte \<Rightarrow> byte \<Rightarrow> int \<Rightarrow> Error \<times> int \<times> FILE" where
  \<comment> \<open>the second component is \<open>*where\<close> on return\<close>
  "check_matching_brackets file opn cls wher =
     (case check_matching_brackets_loop file opn cls 0 wher of (level, wher1, file1) \<Rightarrow>
        (if level \<noteq> 0 then ERR_MATCHING_BRACKET else ERR_OK, wher1, fseek_set file1 0))"

text \<open>
  \<open>readfile\<close> on a script: \<open>None\<close> for the script is \<open>fopen\<close> failing. The result is the
  error code, the offset printed with the bracket message when there is one, and the
  globals when \<open>readfile\<close> returns; the outer \<open>None\<close> is a run that does not return.
\<close>

definition readfile :: "string option \<Rightarrow> globals \<Rightarrow> (Error \<times> int option \<times> globals) option" where
  "readfile script g =
     (case script of
        None \<Rightarrow> Some (ERR_FILE, None, g)
      | Some text \<Rightarrow>
          (let file = \<lparr>bytes = text, fpos = 0\<rparr>;
               (e1, w1, file1) = check_matching_brackets file (lit CHR ''['') (lit CHR '']'') 0
           in if e1 \<noteq> ERR_OK then Some (ERR_MATCHING_BRACKET, Some w1, g)
              else
               (let (e2, w2, file2) = check_matching_brackets file1 (lit CHR ''('') (lit CHR '')'') w1
                in if e2 \<noteq> ERR_OK then Some (ERR_MATCHING_BRACKET, Some w2, g)
                   else (case interpret_file file2 g of
                           None \<Rightarrow> None
                         | Some (err, file3, g3) \<Rightarrow> Some (err, None, g3)))))"

subsection \<open>What the validator counts\<close>

text \<open>
  The loops that keep the byte read in a \<open>char\<close> stop at the first byte \<open>0xFF\<close> as at the end
  of the file: \<open>text_part\<close> is what they see of a script. \<open>level_of\<close> is the value of
  \<open>level\<close> after a pass over a text.
\<close>

definition text_part :: "string \<Rightarrow> string" where
  "text_part s = takeWhile (\<lambda>x. x \<noteq> CHR 0xFF) s"

definition level_of :: "char \<Rightarrow> char \<Rightarrow> string \<Rightarrow> int" where
  "level_of a b s = int (count_list s a) - int (count_list s b)"

subsection \<open>Passes of the dispatcher loop\<close>

text \<open>
  \<open>passes n\<close> is the state in which the loop condition of \<open>interpret_file\<close> is evaluated
  after \<open>n\<close> full passes; \<open>None\<close> when the loop has returned, or a pass does not end, before.
\<close>

fun passes :: "nat \<Rightarrow> FILE \<Rightarrow> globals \<Rightarrow> (FILE \<times> globals) option" where
  "passes 0 file g = Some (file, g)"
| "passes (Suc n) file g =
     (case iteration file g of
        Some (Inr (file1, g1)) \<Rightarrow> passes n file1 g1
      | _ \<Rightarrow> None)"

subsection \<open>Net effect of a program without loops\<close>

text \<open>
  For a program of \<open>+\<close>, \<open>-\<close>, \<open>>\<close> and \<open><\<close>, read off the text and not the interpreter:
  \<open>positions p cs\<close> are the tape positions before each command and after the last one,
  starting at \<open>p\<close>; \<open>net_change i p cs\<close> is the number of \<open>+\<close> less the number of \<open>-\<close>
  that \<open>cs\<close> applies while the position is \<open>i\<close>.
\<close>

definition move :: "int \<Rightarrow> char \<Rightarrow> int" where
  "move p c = (if c = CHR ''>'' then p + 1 else if c = CHR ''<'' then p - 1 else p)"

fun positions :: "int \<Rightarrow> string \<Rightarrow> int list" where
  "positions p [] = [p]"
| "positions p (c # cs) = p # positions (move p c) cs"

fun net_change :: "int \<Rightarrow> int \<Rightarrow> string \<Rightarrow> int" where
  "net_change i p [] = 0"
| "net_change i p (c # cs) =
     (if p = i \<and> c = CHR ''+'' then 1 else if p = i \<and> c = CHR ''-'' then - 1 else 0)
     + net_change i (move p c) cs"

subsection \<open>Matching delimiters\<close>

text \<open>
  Which delimiter matches which, said without the scanner. \<open>balanced a b s\<close>: in \<open>s\<close> every
  \<open>a\<close> is closed by a later \<open>b\<close> and every \<open>b\<close> closes an earlier \<open>a\<close>, properly nested;
  so in \<open>pre @ a # s @ b # post\<close> the two delimiters written out match each other.

  \<open>well_nested s\<close> is the same for the text between a \<open>[\<close> and its \<open>]\<close>: loops nest, a
  round-bracket comment is \<open>(\<close>, a text balanced in round brackets and otherwise free, and
  \<open>)\<close>; outside these comments there is no byte \<open>0xFF\<close> and no round bracket on its own.
  The bytes of a \<open>#\<close> line are ordinary text here, as they are for the loop scans.
\<close>

inductive balanced :: "char \<Rightarrow> char \<Rightarrow> string \<Rightarrow> bool" for a b where
  Nil: "balanced a b []"
| Other: "x \<noteq> a \<Longrightarrow> x \<noteq> b \<Longrightarrow> balanced a b xs \<Longrightarrow> balanced a b (x # xs)"
| Pair: "balanced a b ys \<Longrightarrow> balanced a b xs \<Longrightarrow> balanced a b (a # ys @ b # xs)"

code_pred balanced .

definition plain :: "char \<Rightarrow> bool" where
  "plain x \<longleftrightarrow> x \<notin> {CHR ''['', CHR '']'', CHR ''('', CHR '')'', CHR 0xFF}"

inductive well_nested :: "string \<Rightarrow> bool" where
  Nil: "well_nested []"
| Plain: "plain x \<Longrightarrow> well_nested xs \<Longrightarrow> well_nested (x # xs)"
| Loop: "well_nested ys \<Longrightarrow> well_nested xs \<Longrightarrow> well_nested (CHR ''['' # ys @ CHR '']'' # xs)"
| Comment: "balanced CHR ''('' CHR '')'' cm \<Longrightarrow> well_nested xs \<Longrightarrow>
     well_nested (CHR ''('' # cm @ CHR '')'' # xs)"

code_pred well_nested .

subsection \<open>Reachable states\<close>

text \<open>
  The states in which the loop condition of \<open>interpret_file\<close> is evaluated during the run
  of a script on fresh globals.
\<close>

inductive reachable :: "string \<Rightarrow> string list \<Rightarrow> FILE \<Rightarrow> globals \<Rightarrow> bool" for src input where
  start: "f = \<lparr>bytes = src, fpos = 0\<rparr> \<Longrightarrow> g = globals0 input \<Longrightarrow> reachable src input f g"
| pass: "reachable src input f g \<Longrightarrow> iteration f g = Some (Inr (f', g')) \<Longrightarrow> reachable src input f' g'"

code_pred reachable .

declare ffindc.simps [simp del]
declare check_matching_brackets_loop.simps [simp del]
declare ffindc_matching_loop.simps [code]
declare jump_forward_loop.simps [code]
declare jump_backward_loop.simps [code]
declare interpret_file.simps [code]

section \<open>Basic facts\<close>

subsection \<open>Reading and seeking\<close>

lemma freadc_in: "fpos f < length (bytes f) \<Longrightarrow> freadc f = (of_char (bytes f ! fpos f), f)"
  by (simp add: freadc_def fgetc_def fseek_cur_def)

lemma freadc_eof: "length (bytes f) \<le> fpos f \<Longrightarrow> freadc f = (EOF, f\<lparr>fpos := fpos f - 1\<rparr>)"
  by (cases "fpos f") (auto simp add: freadc_def fgetc_def fseek_cur_def nat_diff_distrib)

lemma fmove_1: "fmove f 1 = f\<lparr>fpos := fpos f + 1\<rparr>"
  by (simp add: fmove_def fseek_cur_def nat_add_distrib)

lemma fmove_m1: "fmove f (- 1) = f\<lparr>fpos := fpos f - 1\<rparr>"
  by (cases "fpos f") (auto simp add: fmove_def fseek_cur_def nat_diff_distrib)

lemma fmoveback_1: "fmoveback f 1 = f\<lparr>fpos := fpos f - 1\<rparr>"
  by (cases "fpos f") (auto simp add: fmoveback_def fseek_cur_def nat_diff_distrib)

subsection \<open>Characters\<close>

lemma to_char_of_char: "to_char (of_char x) = lit x"
  by (simp add: to_char_def lit_def of_int_of_char)

lemma unat_lit: "unat (lit x) = of_char x"
proof -
  have "(of_char x :: nat) < 256" by simp
  moreover have "lit x = of_nat (of_char x)" by (simp add: lit_def of_nat_of_char)
  ultimately show ?thesis
    by (simp add: unat_of_nat)
qed

lemma lit_eq_iff: "lit x = lit y \<longleftrightarrow> x = y"
  by (metis unat_lit of_char_eq_iff)

text \<open>The byte \<open>0xFF\<close> is the one \<open>char\<close> that compares equal to \<open>EOF\<close>.\<close>

lemma sint_lit_EOF: "sint (lit x) = EOF \<longleftrightarrow> x = CHR 0xFF"
proof -
  have "sint (lit x) = - 1 \<longleftrightarrow> lit x = lit (CHR 0xFF)"
  proof -
    have "lit (CHR 0xFF) = - 1" by (simp add: lit_def)
    then show ?thesis by (metis sint_n1 signed_word_eqI)
  qed
  then show ?thesis by (simp add: EOF_def lit_eq_iff)
qed

lemma to_char_EOF: "to_char EOF = lit (CHR 0xFF)"
  by (simp add: to_char_def EOF_def lit_def)

lemma sint_lit_ascii:
  assumes "of_char x < (128::nat)"
  shows "sint (lit x) = of_char x"
proof -
  define n :: nat where "n = of_char x"
  have "lit x = word_of_int (int n)"
    by (simp add: lit_def n_def of_nat_of_char of_int_of_char)
  then have "sint (lit x) = signed_take_bit 7 (int n)"
    by (simp only: sint_sbintrunc') simp
  also have "\<dots> = int n"
    using assms by (intro signed_take_bit_int_eq_self) (simp_all add: n_def)
  finally show ?thesis by (simp add: n_def of_nat_of_char)
qed

lemma of_char_not_EOF: "(of_char x :: int) \<noteq> EOF"
proof -
  have "(of_char x :: int) = int (of_char x)" by (simp add: of_nat_of_char)
  then show ?thesis by (simp add: EOF_def)
qed

lemma fpos_same: "fpos f = n \<Longrightarrow> f\<lparr>fpos := n\<rparr> = f"
  by (cases f) simp

lemma replicate_update_same: "(replicate n x)[i := x] = replicate n x"
  by (induction n arbitrary: i) (auto split: nat.split)

text \<open>The definitions a concrete run is evaluated with.\<close>

lemmas run_defs =
  readfile_def check_matching_brackets_def freadc_def fgetc_def fseek_cur_def fseek_set_def
  fmove_def fmoveback_def to_char_def lit_def EOF_def globals0_def STACK_SIZE_def
  iteration_def command_def jump_forward_def jump_backward_def deref_def assign_def
  input_byte_def print_byte_def ffindc_matching_def

lemma passes_numeral:
  "passes (numeral n) f g =
     (case iteration f g of
        Some (Inr (f1, g1)) \<Rightarrow> passes (pred_numeral n) f1 g1
      | _ \<Rightarrow> None)"
  by (simp add: numeral_eq_Suc)

section \<open>Depth\<close>

text \<open>
  C9. \<open>depth\<close> is an \<open>unsigned int\<close> and \<open>jump_backward\<close> decrements it without looking at
  it: a \<open>]\<close> dispatched on a zero cell while \<open>depth\<close> is 0 leaves \<open>depth = 2^32 - 1\<close>, and
  returns normally with the cursor where it was. The script \<open>][\<close> passes both validation
  passes (the counts agree), its first pass of the loop is this dispatch, and the run ends
  with \<open>ERR_OK\<close>.
\<close>

theorem jump_backward_depth_wraps:
  "(deref g = 0 \<and> depth g = 0 \<longrightarrow>
      (\<exists>g'. jump_backward file g = Some (file, g') \<and> unat (depth g') = 2 ^ 32 - 1
            \<and> g' = g\<lparr>depth := depth g'\<rparr>))
   \<and> fst (check_matching_brackets \<lparr>bytes = '']['', fpos = 0\<rparr> (lit CHR ''['') (lit CHR '']'') 0) = ERR_OK
   \<and> iteration \<lparr>bytes = '']['', fpos = 0\<rparr> (globals0 input) =
         Some (Inr (\<lparr>bytes = '']['', fpos = 1\<rparr>, (globals0 input)\<lparr>depth := 4294967295\<rparr>))
   \<and> (\<exists>g'. readfile (Some '']['') (globals0 input) = Some (ERR_OK, None, g'))"
proof (intro conjI impI)
  assume "deref g = 0 \<and> depth g = 0"
  then have "jump_backward file g = Some (file, g\<lparr>depth := 4294967295\<rparr>)"
    by (simp add: jump_backward_def)
  then show "\<exists>g'. jump_backward file g = Some (file, g') \<and> unat (depth g') = 2 ^ 32 - 1
            \<and> g' = g\<lparr>depth := depth g'\<rparr>"
    by simp
next
  show "fst (check_matching_brackets \<lparr>bytes = '']['', fpos = 0\<rparr> (lit CHR ''['') (lit CHR '']'') 0) = ERR_OK"
    by (simp add: run_defs check_matching_brackets_loop.simps)
next
  show "iteration \<lparr>bytes = '']['', fpos = 0\<rparr> (globals0 input) =
         Some (Inr (\<lparr>bytes = '']['', fpos = 1\<rparr>, (globals0 input)\<lparr>depth := 4294967295\<rparr>))"
    by (simp add: run_defs)
next
  show "\<exists>g'. readfile (Some '']['') (globals0 input) = Some (ERR_OK, None, g')"
    by (simp add: run_defs check_matching_brackets_loop.simps interpret_file.simps jump_forward_loop.simps)
qed

theorem jump_backward_depth_wraps_witness:
  "deref (globals0 []) = 0 \<and> depth (globals0 []) = 0
   \<and> jump_backward \<lparr>bytes = '']['', fpos = 0\<rparr> (globals0 []) =
         Some (\<lparr>bytes = '']['', fpos = 0\<rparr>, (globals0 [])\<lparr>depth := 4294967295\<rparr>)"
proof -
  have h: "deref (globals0 []) = 0 \<and> depth (globals0 []) = 0"
    by (simp add: deref_def globals0_def STACK_SIZE_def)
  with jump_backward_depth_wraps [of "globals0 []" "\<lparr>bytes = '']['', fpos = 0\<rparr>" "[]"]
  obtain g' where a: "jump_backward \<lparr>bytes = '']['', fpos = 0\<rparr> (globals0 []) =
      Some (\<lparr>bytes = '']['', fpos = 0\<rparr>, g')" and b: "unat (depth g') = 2 ^ 32 - 1"
      and c: "g' = (globals0 [])\<lparr>depth := depth g'\<rparr>"
    by blast
  from b have "depth g' = 4294967295"
    by (simp add: word_unat_eq_iff)
  with c have "g' = (globals0 [])\<lparr>depth := 4294967295\<rparr>"
    by simp
  with a h show ?thesis
    by simp
qed

section \<open>Validation\<close>

lemma level_of_Cons:
  "a \<noteq> b \<Longrightarrow> level_of a b (x # s) = (if x = a then 1 else if x = b then - 1 else 0) + level_of a b s"
  by (simp add: level_of_def)

lemma check_loop_step:
  assumes "fpos f < length (bytes f)" and "bytes f ! fpos f \<noteq> CHR 0xFF"
  shows "check_matching_brackets_loop f (lit a) (lit b) level w =
         check_matching_brackets_loop (f\<lparr>fpos := fpos f + 1\<rparr>) (lit a) (lit b)
           (if bytes f ! fpos f = a then level + 1 else if bytes f ! fpos f = b then level - 1 else level) (w + 1)"
  using assms
  by (subst check_matching_brackets_loop.simps)
     (simp add: freadc_in to_char_of_char sint_lit_EOF fmove_1 lit_eq_iff)

lemma check_loop_stop:
  assumes "fpos f < length (bytes f) \<longrightarrow> bytes f ! fpos f = CHR 0xFF"
  shows "\<exists>k. check_matching_brackets_loop f (lit a) (lit b) level w = (level, w, f\<lparr>fpos := k\<rparr>)"
proof (cases "fpos f < length (bytes f)")
  case True
  with assms have "bytes f ! fpos f = CHR 0xFF" by simp
  with True have "check_matching_brackets_loop f (lit a) (lit b) level w = (level, w, f\<lparr>fpos := fpos f\<rparr>)"
    by (subst check_matching_brackets_loop.simps) (simp add: freadc_in to_char_def EOF_def)
  then show ?thesis by blast
next
  case False
  then have "check_matching_brackets_loop f (lit a) (lit b) level w = (level, w, f\<lparr>fpos := fpos f - 1\<rparr>)"
    by (subst check_matching_brackets_loop.simps) (simp add: freadc_eof to_char_EOF sint_lit_EOF)
  then show ?thesis by blast
qed

lemma check_loop_eq:
  "a \<noteq> b \<Longrightarrow> \<exists>k. check_matching_brackets_loop f (lit a) (lit b) level w =
     (level + level_of a b (text_part (drop (fpos f) (bytes f))),
      w + int (length (text_part (drop (fpos f) (bytes f)))),
      f\<lparr>fpos := k\<rparr>)"
proof (induction "length (bytes f) - fpos f" arbitrary: f level w)
  case 0
  then have le: "length (bytes f) \<le> fpos f" by simp
  then have "fpos f < length (bytes f) \<longrightarrow> bytes f ! fpos f = CHR 0xFF" by simp
  from check_loop_stop [OF this, of a b level w] le show ?case
    by (simp add: text_part_def level_of_def)
next
  case (Suc n)
  then have lt: "fpos f < length (bytes f)" by simp
  let ?x = "bytes f ! fpos f"
  have dr: "drop (fpos f) (bytes f) = ?x # drop (Suc (fpos f)) (bytes f)"
    using lt by (simp add: Cons_nth_drop_Suc)
  show ?case
  proof (cases "?x = CHR 0xFF")
    case True
    then have "fpos f < length (bytes f) \<longrightarrow> bytes f ! fpos f = CHR 0xFF" by simp
    from check_loop_stop [OF this, of a b level w] True show ?thesis
      by (simp add: dr text_part_def level_of_def)
  next
    case False
    let ?f = "f\<lparr>fpos := fpos f + 1\<rparr>"
    let ?lv = "if ?x = a then level + 1 else if ?x = b then level - 1 else level"
    have "n = length (bytes ?f) - fpos ?f" using Suc.hyps(2) by simp
    from Suc.hyps(1) [OF this Suc.prems, of ?lv "w + 1"]
    obtain k where k: "check_matching_brackets_loop ?f (lit a) (lit b) ?lv (w + 1) =
       (?lv + level_of a b (text_part (drop (fpos ?f) (bytes ?f))),
        w + 1 + int (length (text_part (drop (fpos ?f) (bytes ?f)))), ?f\<lparr>fpos := k\<rparr>)"
      by blast
    have "check_matching_brackets_loop f (lit a) (lit b) level w =
       (level + level_of a b (text_part (drop (fpos f) (bytes f))),
        w + int (length (text_part (drop (fpos f) (bytes f)))), f\<lparr>fpos := k\<rparr>)"
      unfolding check_loop_step [OF lt False] k
      using False Suc.prems by (simp add: dr text_part_def level_of_Cons)
    then show ?thesis by blast
  qed
qed

lemma check_matching_brackets_eq:
  assumes "a \<noteq> b"
  shows "check_matching_brackets f (lit a) (lit b) w =
     (if level_of a b (text_part (drop (fpos f) (bytes f))) \<noteq> 0 then ERR_MATCHING_BRACKET else ERR_OK,
      w + int (length (text_part (drop (fpos f) (bytes f)))),
      f\<lparr>fpos := 0\<rparr>)"
proof -
  from check_loop_eq [OF assms, of f 0 w] obtain k where
    "check_matching_brackets_loop f (lit a) (lit b) 0 w =
     (0 + level_of a b (text_part (drop (fpos f) (bytes f))),
      w + int (length (text_part (drop (fpos f) (bytes f)))), f\<lparr>fpos := k\<rparr>)"
    by blast
  then show ?thesis
    by (simp add: check_matching_brackets_def fseek_set_def)
qed

lemma text_part_id: "CHR 0xFF \<notin> set s \<Longrightarrow> text_part s = s"
  by (auto simp: text_part_def)

text \<open>
  \<open>readfile\<close> up to the call of \<open>interpret_file\<close>: both passes count over the text part of
  the script, and the offset printed is the sum of what they have scanned.
\<close>

lemma readfile_validation:
  "readfile (Some src) g =
     (if level_of CHR ''['' CHR '']'' (text_part src) \<noteq> 0
        then Some (ERR_MATCHING_BRACKET, Some (int (length (text_part src))), g)
      else if level_of CHR ''('' CHR '')'' (text_part src) \<noteq> 0
        then Some (ERR_MATCHING_BRACKET, Some (2 * int (length (text_part src))), g)
      else (case interpret_file \<lparr>bytes = src, fpos = 0\<rparr> g of
              None \<Rightarrow> None
            | Some (err, file3, g3) \<Rightarrow> Some (err, None, g3)))"
  by (simp add: readfile_def check_matching_brackets_eq)

text \<open>
  For a script without the byte \<open>0xFF\<close> and short enough for the counter \<open>where_err\<close>, an
  \<open>int\<close>, to hold twice its length, each pass scans the whole script. Unequal counts of
  \<open>[\<close> and \<open>]\<close> make the first pass fail: \<open>interpret_file\<close> is not called and the globals
  are those \<open>readfile\<close> was entered with. The offset printed is the length of the script
  when the first pass fails and twice the length when the second one does, and so it is
  the offset of no byte of the script.
\<close>

lemma validation_rejects_without_0xFF:
  assumes "CHR 0xFF \<notin> set src" and "length src < 2 ^ 30"
    and "count_list src CHR ''['' \<noteq> count_list src CHR '']''"
  shows "readfile (Some src) g = Some (ERR_MATCHING_BRACKET, Some (int (length src)), g)"
  using assms by (simp add: readfile_validation text_part_id level_of_def)

lemma validation_offset_without_0xFF:
  assumes "CHR 0xFF \<notin> set src" and "length src < 2 ^ 30"
  shows "(count_list src CHR ''['' \<noteq> count_list src CHR '']'' \<longrightarrow>
            readfile (Some src) g = Some (ERR_MATCHING_BRACKET, Some (int (length src)), g))
       \<and> (count_list src CHR ''['' = count_list src CHR '']'' \<and>
          count_list src CHR ''('' \<noteq> count_list src CHR '')'' \<longrightarrow>
            readfile (Some src) g = Some (ERR_MATCHING_BRACKET, Some (2 * int (length src)), g))
       \<and> (\<forall>w g'. readfile (Some src) g = Some (ERR_MATCHING_BRACKET, Some w, g') \<longrightarrow>
            (\<forall>i < length src. w \<noteq> int i))"
  using assms(1)
  by (auto simp: readfile_validation text_part_id level_of_def split: if_splits option.splits)

lemma validation_without_0xFF_examples:
  "readfile (Some ''+[[-].'') (globals0 [''A'']) = Some (ERR_MATCHING_BRACKET, Some 6, globals0 [''A''])"
  "readfile (Some ''[[-]'') (globals0 []) = Some (ERR_MATCHING_BRACKET, Some 4, globals0 [])"
  "readfile (Some ''[(-]'') (globals0 []) = Some (ERR_MATCHING_BRACKET, Some 8, globals0 [])"
  by (simp_all add: readfile_validation text_part_id level_of_def)

text \<open>
  C6. A script whose counts of \<open>[\<close> and \<open>]\<close> differ is to be rejected before any command
  runs. \<open>check_matching_brackets\<close> keeps the byte it reads in a \<open>char\<close> and compares that
  with \<open>EOF\<close>, so its scan ends at the first byte \<open>0xFF\<close> and the brackets after that byte
  are not counted (\<open>ffindc\<close> and \<open>ffindc_matching\<close> keep the byte in an \<open>int\<close> and read
  on). The script of the two bytes \<open>0xFF\<close> \<open>[\<close>, one \<open>[\<close> and no \<open>]\<close>, is accepted and
  \<open>readfile\<close> returns \<open>ERR_OK\<close>. The script \<open>+.#\<close> \<open>0xFF\<close> newline \<open>[+.\<close>, one \<open>[\<close> and no \<open>]\<close>,
  is accepted too, and its run changes the tape and writes two bytes: \<open>+\<close> and \<open>.\<close> run, the
  line comment is skipped over the byte \<open>0xFF\<close>, the \<open>[\<close> is entered on the nonzero cell,
  and \<open>+\<close> and \<open>.\<close> run again.
\<close>

theorem unmatched_bracket_accepted_after_0xFF:
  "count_list [CHR 0xFF, CHR ''[''] CHR ''['' \<noteq> count_list [CHR 0xFF, CHR ''[''] CHR '']''
   \<and> readfile (Some [CHR 0xFF, CHR ''['']) (globals0 input) = Some (ERR_OK, None, globals0 input)
   \<and> count_list (''+.#'' @ [CHR 0xFF] @ ''\<newline>[+.'') CHR ''[''
       \<noteq> count_list (''+.#'' @ [CHR 0xFF] @ ''\<newline>[+.'') CHR '']''
   \<and> readfile (Some (''+.#'' @ [CHR 0xFF] @ ''\<newline>[+.'')) (globals0 input) =
       Some (ERR_OK, None,
         (globals0 input)\<lparr>stack := (stack (globals0 input))[0 := 2], depth := 1, stdout := [1, 2]\<rparr>)"
  by (simp add: run_defs check_matching_brackets_loop.simps interpret_file.simps
      jump_forward_loop.simps ffindc.simps)

text \<open>
  C10. Each validation pass is to scan to the end of the script, adding one to the shared
  counter for every byte, so that the offset printed is the length of the script or twice
  the length. The scan ends at the first byte \<open>0xFF\<close>, which the \<open>char\<close> it is read into
  makes equal to \<open>EOF\<close>. For the script \<open>[\<close> \<open>0xFF\<close> \<open>+\<close>, of three bytes, the first pass
  fails and the offset printed is 1. For the script \<open>(+\<close> \<open>0xFF\<close> \<open>+(\<close>, of five bytes and
  without any \<open>)\<close>, the first pass succeeds, the second fails, and the offset printed is
  4, which is neither 10 nor 5 and is the offset of the second unmatched \<open>(\<close>.
\<close>

theorem validation_offset_stops_at_0xFF:
  "length [CHR ''['', CHR 0xFF, CHR ''+''] = 3
   \<and> readfile (Some [CHR ''['', CHR 0xFF, CHR ''+'']) g = Some (ERR_MATCHING_BRACKET, Some 1, g)
   \<and> length [CHR ''('', CHR ''+'', CHR 0xFF, CHR ''+'', CHR ''(''] = 5
   \<and> [CHR ''('', CHR ''+'', CHR 0xFF, CHR ''+'', CHR ''(''] ! 4 = CHR ''(''
   \<and> count_list [CHR ''('', CHR ''+'', CHR 0xFF, CHR ''+'', CHR ''(''] CHR '')'' = 0
   \<and> readfile (Some [CHR ''('', CHR ''+'', CHR 0xFF, CHR ''+'', CHR ''('']) g =
       Some (ERR_MATCHING_BRACKET, Some 4, g)"
  by (simp add: run_defs check_matching_brackets_loop.simps)

section \<open>Tape bounds\<close>

text \<open>
  \<open>stackptr\<close> is checked at the head of each pass of the loop, before the command under
  the cursor runs: a pass entered with \<open>stackptr\<close> outside the array returns \<open>ERR_BOUNDS\<close>
  with \<open>stackptr\<close> clamped, and its command is not run.
\<close>

lemma iteration_bounds:
  assumes "fpos f < length (bytes f)" and "bytes f ! fpos f \<noteq> CHR 0xFF"
  shows "stackptr g < 0 \<Longrightarrow> iteration f g = Some (Inl (ERR_BOUNDS, f, g\<lparr>stackptr := 0\<rparr>))"
    and "STACK_SIZE \<le> stackptr g \<Longrightarrow>
         iteration f g = Some (Inl (ERR_BOUNDS, f, g\<lparr>stackptr := STACK_SIZE - 1\<rparr>))"
  using assms
  by (simp_all add: iteration_def freadc_in to_char_of_char sint_lit_EOF STACK_SIZE_def)

lemma iteration_end:
  "length (bytes f) \<le> fpos f \<Longrightarrow> iteration f g = Some (Inl (ERR_OK, f\<lparr>fpos := fpos f - 1\<rparr>, g))"
  by (simp add: iteration_def freadc_eof to_char_EOF sint_lit_EOF)

text \<open>
  C5. The check comes one pass late for a move that is the last byte of the script: the
  loop condition fails first. The script \<open><\<close> passes validation, moves \<open>stackptr\<close> to
  \<open>stack - 1\<close> and returns \<open>ERR_OK\<close>, with \<open>stackptr\<close> left outside the array.
\<close>

theorem bounds_check_missed_at_end:
  "readfile (Some ''<'') (globals0 input) = Some (ERR_OK, None, (globals0 input)\<lparr>stackptr := - 1\<rparr>)"
  by (simp add: run_defs check_matching_brackets_loop.simps interpret_file.simps)

text \<open>With one more command after it, the same move is reported.\<close>

lemma bounds_check_next_pass:
  "readfile (Some ''<+'') (globals0 input) = Some (ERR_BOUNDS, None, globals0 input)"
  by (simp add: run_defs check_matching_brackets_loop.simps interpret_file.simps)

section \<open>A nested loop\<close>

text \<open>
  C8. The script \<open>[[-]]\<close> entered on a cell holding 3 returns \<open>ERR_OK\<close> with the cell at 0
  and \<open>depth\<close> back at its value on entry. On the way, both \<open>[\<close> raise \<open>depth\<close> by two;
  each \<open>]\<close> taken on a nonzero cell lowers it by one and leaves the cursor on the inner
  \<open>[\<close> (after 4 and 7 passes), whose dispatch raises it again (after 5 and 8 passes);
  the two \<open>]\<close> dispatched on the zeroed cell (passes 10 and 11) lower it twice. The
  script \<open>+++[[-]]\<close> does the same from the globals of a fresh run.
\<close>

theorem nested_loop_terminates:
  assumes "0 \<le> stackptr g" and "stackptr g < STACK_SIZE"
    and "nat (stackptr g) < length (stack g)" and "deref g = 3"
  shows "interpret_file \<lparr>bytes = ''[[-]]'', fpos = 0\<rparr> g =
           Some (ERR_OK, \<lparr>bytes = ''[[-]]'', fpos = 4\<rparr>, assign g 0)
       \<and> passes 2 \<lparr>bytes = ''[[-]]'', fpos = 0\<rparr> g =
           Some (\<lparr>bytes = ''[[-]]'', fpos = 2\<rparr>, g\<lparr>depth := depth g + 2\<rparr>)
       \<and> passes 4 \<lparr>bytes = ''[[-]]'', fpos = 0\<rparr> g =
           Some (\<lparr>bytes = ''[[-]]'', fpos = 1\<rparr>, (assign g 2)\<lparr>depth := depth g + 1\<rparr>)
       \<and> passes 5 \<lparr>bytes = ''[[-]]'', fpos = 0\<rparr> g =
           Some (\<lparr>bytes = ''[[-]]'', fpos = 2\<rparr>, (assign g 2)\<lparr>depth := depth g + 2\<rparr>)
       \<and> passes 7 \<lparr>bytes = ''[[-]]'', fpos = 0\<rparr> g =
           Some (\<lparr>bytes = ''[[-]]'', fpos = 1\<rparr>, (assign g 1)\<lparr>depth := depth g + 1\<rparr>)
       \<and> passes 8 \<lparr>bytes = ''[[-]]'', fpos = 0\<rparr> g =
           Some (\<lparr>bytes = ''[[-]]'', fpos = 2\<rparr>, (assign g 1)\<lparr>depth := depth g + 2\<rparr>)
       \<and> passes 10 \<lparr>bytes = ''[[-]]'', fpos = 0\<rparr> g =
           Some (\<lparr>bytes = ''[[-]]'', fpos = 4\<rparr>, (assign g 0)\<lparr>depth := depth g + 1\<rparr>)
       \<and> passes 11 \<lparr>bytes = ''[[-]]'', fpos = 0\<rparr> g =
           Some (\<lparr>bytes = ''[[-]]'', fpos = 5\<rparr>, assign g 0)
       \<and> readfile (Some ''+++[[-]]'') (globals0 input) = Some (ERR_OK, None, globals0 input)"
proof -
  note evals = run_defs interpret_file.simps jump_backward_loop.simps jump_forward_loop.simps
    check_matching_brackets_loop.simps passes_numeral
  have "interpret_file \<lparr>bytes = ''[[-]]'', fpos = 0\<rparr> g =
           Some (ERR_OK, \<lparr>bytes = ''[[-]]'', fpos = 4\<rparr>, assign g 0)"
    using assms by (simp add: evals)
  moreover have "passes 2 \<lparr>bytes = ''[[-]]'', fpos = 0\<rparr> g =
           Some (\<lparr>bytes = ''[[-]]'', fpos = 2\<rparr>, g\<lparr>depth := depth g + 2\<rparr>)"
    using assms by (simp add: evals)
  moreover have "passes 4 \<lparr>bytes = ''[[-]]'', fpos = 0\<rparr> g =
           Some (\<lparr>bytes = ''[[-]]'', fpos = 1\<rparr>, (assign g 2)\<lparr>depth := depth g + 1\<rparr>)"
    using assms by (simp add: evals)
  moreover have "passes 5 \<lparr>bytes = ''[[-]]'', fpos = 0\<rparr> g =
           Some (\<lparr>bytes = ''[[-]]'', fpos = 2\<rparr>, (assign g 2)\<lparr>depth := depth g + 2\<rparr>)"
    using assms by (simp add: evals)
  moreover have "passes 7 \<lparr>bytes = ''[[-]]'', fpos = 0\<rparr> g =
           Some (\<lparr>bytes = ''[[-]]'', fpos = 1\<rparr>, (assign g 1)\<lparr>depth := depth g + 1\<rparr>)"
    using assms by (simp add: evals)
  moreover have "passes 8 \<lparr>bytes = ''[[-]]'', fpos = 0\<rparr> g =
           Some (\<lparr>bytes = ''[[-]]'', fpos = 2\<rparr>, (assign g 1)\<lparr>depth := depth g + 2\<rparr>)"
    using assms by (simp add: evals)
  moreover have "passes 10 \<lparr>bytes = ''[[-]]'', fpos = 0\<rparr> g =
           Some (\<lparr>bytes = ''[[-]]'', fpos = 4\<rparr>, (assign g 0)\<lparr>depth := depth g + 1\<rparr>)"
    using assms by (simp add: evals)
  moreover have "passes 11 \<lparr>bytes = ''[[-]]'', fpos = 0\<rparr> g =
           Some (\<lparr>bytes = ''[[-]]'', fpos = 5\<rparr>, assign g 0)"
    using assms by (simp add: evals)
  moreover have "readfile (Some ''+++[[-]]'') (globals0 input) = Some (ERR_OK, None, globals0 input)"
    by (simp add: evals replicate_update_same)
  ultimately show ?thesis
    by blast
qed

theorem nested_loop_terminates_witness:
  "interpret_file \<lparr>bytes = ''[[-]]'', fpos = 0\<rparr> ((globals0 [])\<lparr>stack := (stack (globals0 []))[0 := 3]\<rparr>) =
     Some (ERR_OK, \<lparr>bytes = ''[[-]]'', fpos = 4\<rparr>, (globals0 [])\<lparr>stack := (stack (globals0 []))[0 := 0]\<rparr>)"
proof -
  let ?g = "(globals0 [])\<lparr>stack := (stack (globals0 []))[0 := 3]\<rparr>"
  have "0 \<le> stackptr ?g" "stackptr ?g < STACK_SIZE" "nat (stackptr ?g) < length (stack ?g)" "deref ?g = 3"
    by (simp_all add: globals0_def STACK_SIZE_def deref_def)
  from nested_loop_terminates [OF this, of "[]", THEN conjunct1] show ?thesis
    by (simp add: assign_def globals0_def STACK_SIZE_def)
qed

section \<open>Programs without loops\<close>

lemma positions_not_Nil: "positions p cs \<noteq> []"
  by (cases cs) simp_all

lemma iteration_simple:
  assumes "fpos f < length (bytes f)" and "bytes f ! fpos f = c"
    and "c \<in> {CHR ''+'', CHR ''-'', CHR ''<'', CHR ''>''}"
    and "0 \<le> stackptr g" and "stackptr g < STACK_SIZE"
  shows "iteration f g = Some (Inr (f\<lparr>fpos := fpos f + 1\<rparr>,
           if c = CHR ''+'' then assign g (deref g + 1)
           else if c = CHR ''-'' then assign g (deref g - 1)
           else g\<lparr>stackptr := move (stackptr g) c\<rparr>))"
  using assms
  by (auto simp: iteration_def command_def freadc_in to_char_of_char sint_lit_EOF lit_eq_iff fmove_1 move_def)

lemma straight_line:
  assumes "bytes f = pre @ cs" and "fpos f = length pre"
    and "set cs \<subseteq> {CHR ''+'', CHR ''-'', CHR ''<'', CHR ''>''}"
    and "\<forall>q \<in> set (positions (stackptr g) cs). 0 \<le> q \<and> q < STACK_SIZE"
    and "length (stack g) = nat STACK_SIZE"
  shows "\<exists>g'. interpret_file f g = Some (ERR_OK, f\<lparr>fpos := length (bytes f) - 1\<rparr>, g')
           \<and> stackptr g' = last (positions (stackptr g) cs)
           \<and> length (stack g') = nat STACK_SIZE
           \<and> (\<forall>i. 0 \<le> i \<and> i < STACK_SIZE \<longrightarrow>
                 stack g' ! nat i = stack g ! nat i + word_of_int (net_change i (stackptr g) cs))
           \<and> depth g' = depth g \<and> stdin g' = stdin g \<and> stdout g' = stdout g"
  using assms
proof (induction cs arbitrary: pre f g)
  case Nil
  then have "iteration f g = Some (Inl (ERR_OK, f\<lparr>fpos := fpos f - 1\<rparr>, g))"
    by (simp add: iteration_end)
  with Nil show ?case
    by (subst interpret_file.simps) simp
next
  case (Cons c cs)
  let ?f = "f\<lparr>fpos := fpos f + 1\<rparr>"
  define g1 where "g1 = (if c = CHR ''+'' then assign g (deref g + 1)
           else if c = CHR ''-'' then assign g (deref g - 1)
           else g\<lparr>stackptr := move (stackptr g) c\<rparr>)"
  have lt: "fpos f < length (bytes f)" and at: "bytes f ! fpos f = c"
    using Cons.prems(1,2) by simp_all
  have c: "c \<in> {CHR ''+'', CHR ''-'', CHR ''<'', CHR ''>''}"
    using Cons.prems(3) by simp
  have p: "0 \<le> stackptr g" "stackptr g < STACK_SIZE"
    using Cons.prems(4) by simp_all
  have it: "iteration f g = Some (Inr (?f, g1))"
    unfolding g1_def by (rule iteration_simple [OF lt at c p])
  have sp: "stackptr g1 = move (stackptr g) c"
    using c by (auto simp: g1_def assign_def move_def)
  have same: "depth g1 = depth g" "stdin g1 = stdin g" "stdout g1 = stdout g"
    by (auto simp: g1_def assign_def)
  have 1: "bytes ?f = (pre @ [c]) @ cs" using Cons.prems(1) by simp
  have 2: "fpos ?f = length (pre @ [c])" using Cons.prems(2) by simp
  have 3: "set cs \<subseteq> {CHR ''+'', CHR ''-'', CHR ''<'', CHR ''>''}" using Cons.prems(3) by simp
  have 4: "\<forall>q \<in> set (positions (stackptr g1) cs). 0 \<le> q \<and> q < STACK_SIZE"
    using Cons.prems(4) unfolding sp by simp
  have 5: "length (stack g1) = nat STACK_SIZE"
    using Cons.prems(5) by (simp add: g1_def assign_def)
  from Cons.IH [OF 1 2 3 4 5] obtain g' where
    g': "interpret_file ?f g1 = Some (ERR_OK, ?f\<lparr>fpos := length (bytes ?f) - 1\<rparr>, g')"
      "stackptr g' = last (positions (stackptr g1) cs)"
      "length (stack g') = nat STACK_SIZE"
      "\<forall>i. 0 \<le> i \<and> i < STACK_SIZE \<longrightarrow>
                 stack g' ! nat i = stack g1 ! nat i + word_of_int (net_change i (stackptr g1) cs)"
      "depth g' = depth g1" "stdin g' = stdin g1" "stdout g' = stdout g1"
    by blast
  have run: "interpret_file f g = Some (ERR_OK, f\<lparr>fpos := length (bytes f) - 1\<rparr>, g')"
    using g'(1) by (subst interpret_file.simps) (simp add: it)
  have cell: "stack g' ! nat i = stack g ! nat i + word_of_int (net_change i (stackptr g) (c # cs))"
    if "0 \<le> i \<and> i < STACK_SIZE" for i
  proof -
    have "stack g1 ! nat i =
        stack g ! nat i + (if stackptr g = i \<and> c = CHR ''+'' then 1 else if stackptr g = i \<and> c = CHR ''-'' then - 1 else 0)"
      using that p Cons.prems(5) c
      by (auto simp: g1_def assign_def deref_def nth_list_update STACK_SIZE_def)
    with g'(4) that show ?thesis
      unfolding sp by (auto simp: )
  qed
  show ?case
    using run g'(2,3,5,6,7) cell unfolding sp same
    by (intro exI [of _ g']) (simp add: positions_not_Nil)
qed


text \<open>
  C7. A script of \<open>+\<close>, \<open>-\<close>, \<open>>\<close> and \<open><\<close> only, whose tape position stays in
  \<open>[0, STACK_SIZE)\<close> before every command and after the last one, runs to \<open>ERR_OK\<close>. Every
  cell then holds the net sum of the increments and decrements applied to it, modulo 256,
  and a cell the position never stood on is 0.
\<close>

theorem straight_line_tape:
  assumes "set src \<subseteq> {CHR ''+'', CHR ''-'', CHR ''<'', CHR ''>''}"
    and "\<forall>q \<in> set (positions 0 src). 0 \<le> q \<and> q < STACK_SIZE"
  shows "\<exists>g'. readfile (Some src) (globals0 input) = Some (ERR_OK, None, g')
           \<and> stackptr g' = last (positions 0 src)
           \<and> (\<forall>i. 0 \<le> i \<and> i < STACK_SIZE \<longrightarrow>
                 uint (stack g' ! nat i) = net_change i 0 src mod 256)
           \<and> (\<forall>i. 0 \<le> i \<and> i < STACK_SIZE \<and> i \<notin> set (positions 0 src) \<longrightarrow>
                 stack g' ! nat i = 0)"
proof -
  have nof: "CHR 0xFF \<notin> set src" and nob: "CHR ''['' \<notin> set src" "CHR '']'' \<notin> set src"
     "CHR ''('' \<notin> set src" "CHR '')'' \<notin> set src"
    using assms(1) by auto
  have val: "readfile (Some src) (globals0 input) =
      (case interpret_file \<lparr>bytes = src, fpos = 0\<rparr> (globals0 input) of
              None \<Rightarrow> None
            | Some (err, file3, g3) \<Rightarrow> Some (err, None, g3))"
    using nob by (simp add: readfile_validation text_part_id [OF nof] level_of_def)
  have "\<exists>g'. interpret_file \<lparr>bytes = src, fpos = 0\<rparr> (globals0 input) =
            Some (ERR_OK, \<lparr>bytes = src, fpos = 0\<rparr>\<lparr>fpos := length (bytes \<lparr>bytes = src, fpos = 0\<rparr>) - 1\<rparr>, g')
           \<and> stackptr g' = last (positions (stackptr (globals0 input)) src)
           \<and> length (stack g') = nat STACK_SIZE
           \<and> (\<forall>i. 0 \<le> i \<and> i < STACK_SIZE \<longrightarrow>
                 stack g' ! nat i = stack (globals0 input) ! nat i + word_of_int (net_change i (stackptr (globals0 input)) src))
           \<and> depth g' = depth (globals0 input) \<and> stdin g' = stdin (globals0 input) \<and> stdout g' = stdout (globals0 input)"
    by (rule straight_line [where pre = "[]"]) (use assms in \<open>simp_all add: globals0_def\<close>)
  then obtain g' where run: "interpret_file \<lparr>bytes = src, fpos = 0\<rparr> (globals0 input) =
            Some (ERR_OK, \<lparr>bytes = src, fpos = length src - 1\<rparr>, g')"
      and ptr: "stackptr g' = last (positions (stackptr (globals0 input)) src)"
      and cells: "\<forall>i. 0 \<le> i \<and> i < STACK_SIZE \<longrightarrow>
                 stack g' ! nat i = stack (globals0 input) ! nat i + word_of_int (net_change i (stackptr (globals0 input)) src)"
    by auto
  have zero: "stack (globals0 input) ! nat i = 0" if "0 \<le> i \<and> i < STACK_SIZE" for i
  proof -
    from that have "nat i < 1000" unfolding STACK_SIZE_def by linarith
    then show ?thesis by (simp add: globals0_def STACK_SIZE_def)
  qed
  have g': "stackptr g' = last (positions 0 src)"
      "\<forall>i. 0 \<le> i \<and> i < STACK_SIZE \<longrightarrow> stack g' ! nat i = word_of_int (net_change i 0 src)"
    using ptr cells zero by (simp_all add: globals0_def)
  have unv: "net_change i p cs = 0" if "i \<notin> set (positions p cs)" for i p cs
    using that by (induction cs arbitrary: p) auto
  show ?thesis
    using g' unv [of _ 0 src]
    by (intro exI [of _ g']) (auto simp: val run uint_word_of_int take_bit_eq_mod)
qed

lemma positions_plus: "positions p (replicate n CHR ''+'') = replicate (Suc n) p"
  by (induction n) (simp_all add: move_def)

lemma net_change_plus: "net_change p p (replicate n CHR ''+'') = int n"
  by (induction n) (simp_all add: move_def)

text \<open>255 \<open>+\<close> on the zero cell give 255, one more gives 0.\<close>

theorem straight_line_tape_witness:
  "(\<exists>g'. readfile (Some (replicate 255 CHR ''+'')) (globals0 []) = Some (ERR_OK, None, g')
          \<and> stack g' ! 0 = 255 \<and> stack g' ! 1 = 0)
   \<and> (\<exists>g'. readfile (Some (replicate 256 CHR ''+'')) (globals0 []) = Some (ERR_OK, None, g')
          \<and> stack g' ! 0 = 0)"
proof -
  have a: "set (replicate n CHR ''+'') \<subseteq> {CHR ''+'', CHR ''-'', CHR ''<'', CHR ''>''}" for n
    by auto
  have b: "\<forall>q \<in> set (positions 0 (replicate n CHR ''+'')). 0 \<le> q \<and> q < STACK_SIZE" for n
    by (simp add: positions_plus STACK_SIZE_def)
  have c: "(1::int) \<notin> set (positions 0 (replicate n CHR ''+''))" for n
    by (simp add: positions_plus)
  from straight_line_tape [OF a b, of 255 "[]"] obtain g1 where
    g1: "readfile (Some (replicate 255 CHR ''+'')) (globals0 []) = Some (ERR_OK, None, g1)"
      "\<forall>i. 0 \<le> i \<and> i < STACK_SIZE \<longrightarrow>
         uint (stack g1 ! nat i) = net_change i 0 (replicate 255 CHR ''+'') mod 256"
      "\<forall>i. 0 \<le> i \<and> i < STACK_SIZE \<and> i \<notin> set (positions 0 (replicate 255 CHR ''+'')) \<longrightarrow>
         stack g1 ! nat i = 0"
    by blast
  from straight_line_tape [OF a b, of 256 "[]"] obtain g2 where
    g2: "readfile (Some (replicate 256 CHR ''+'')) (globals0 []) = Some (ERR_OK, None, g2)"
      "\<forall>i. 0 \<le> i \<and> i < STACK_SIZE \<longrightarrow>
         uint (stack g2 ! nat i) = net_change i 0 (replicate 256 CHR ''+'') mod 256"
    by blast
  have "uint (stack g1 ! nat 0) = 255"
    using g1(2) [THEN spec, of 0] by (simp add: net_change_plus STACK_SIZE_def)
  then have "word_of_int (uint (stack g1 ! 0)) = (word_of_int 255 :: byte)"
    by simp
  then have "stack g1 ! 0 = 255"
    by simp
  moreover have "stack g1 ! nat 1 = 0"
    using g1(3) [THEN spec, of 1] c [of 255] by (simp add: STACK_SIZE_def)
  moreover have "uint (stack g2 ! nat 0) = 0"
    using g2(2) [THEN spec, of 0] by (simp add: net_change_plus STACK_SIZE_def)
  then have "stack g2 ! 0 = 0"
    by (simp add: uint_0_iff)
  ultimately show ?thesis
    using g1(1) g2(1) by auto
qed

section \<open>Matching delimiters\<close>

lemma fm_loop_other:
  assumes "fpos f < length (bytes f)" and "of_char (bytes f ! fpos f) \<noteq> c1" and "of_char (bytes f ! fpos f) \<noteq> c2"
  shows "ffindc_matching_loop f c1 c2 dir d = ffindc_matching_loop (fmove f dir) c1 c2 dir d"
  using assms by (subst ffindc_matching_loop.simps) (simp add: freadc_in of_char_not_EOF)

lemma fm_loop_open:
  assumes "fpos f < length (bytes f)" and "of_char (bytes f ! fpos f) = c1"
  shows "ffindc_matching_loop f c1 c2 dir d = ffindc_matching_loop (fmove f dir) c1 c2 dir (d + 1)"
  using assms by (subst ffindc_matching_loop.simps) (auto simp add: freadc_in of_char_not_EOF)

lemma fm_loop_close:
  assumes "fpos f < length (bytes f)" and "of_char (bytes f ! fpos f) = c2" and "c1 \<noteq> c2"
  shows "ffindc_matching_loop f c1 c2 dir d =
     (if d = 1 then Some (c2, f) else ffindc_matching_loop (fmove f dir) c1 c2 dir (d - 1))"
  using assms by (subst ffindc_matching_loop.simps) (auto simp add: freadc_in of_char_not_EOF)

lemma fm_forward_skip:
  assumes "balanced a b seg" and "a \<noteq> b"
  shows "bytes f = pre @ seg @ post \<Longrightarrow> fpos f = length pre \<Longrightarrow> 1 \<le> d \<Longrightarrow>
     ffindc_matching_loop f (of_char a) (of_char b) 1 d =
     ffindc_matching_loop (f\<lparr>fpos := length pre + length seg\<rparr>) (of_char a) (of_char b) 1 d"
  using assms(1)
proof (induction arbitrary: pre post f d)
  case Nil
  then show ?case by (simp add: fpos_same)
next
  case (Other x xs)
  have "ffindc_matching_loop f (of_char a) (of_char b) 1 d =
        ffindc_matching_loop (fmove f 1) (of_char a) (of_char b) 1 d"
    using Other.prems Other.hyps(1,2) by (intro fm_loop_other) simp_all
  also have "\<dots> = ffindc_matching_loop ((fmove f 1)\<lparr>fpos := length (pre @ [x]) + length xs\<rparr>) (of_char a) (of_char b) 1 d"
    using Other.prems by (intro Other.IH) (simp_all add: fmove_1)
  finally show ?case by (simp add: fmove_1)
next
  case (Pair ys xs)
  have "ffindc_matching_loop f (of_char a) (of_char b) 1 d =
        ffindc_matching_loop (fmove f 1) (of_char a) (of_char b) 1 (d + 1)"
    using Pair.prems by (intro fm_loop_open) simp_all
  also have "\<dots> = ffindc_matching_loop ((fmove f 1)\<lparr>fpos := length (pre @ [a]) + length ys\<rparr>) (of_char a) (of_char b) 1 (d + 1)"
    using Pair.prems by (intro Pair.IH(1) [where post = "b # xs @ post"]) (simp_all add: fmove_1)
  also have "\<dots> = ffindc_matching_loop (f\<lparr>fpos := length pre + length ys + 2\<rparr>) (of_char a) (of_char b) 1 d"
    using Pair.prems assms(2)
    by (subst fm_loop_close) (simp_all add: fmove_1 nth_append)
  also have "\<dots> = ffindc_matching_loop ((f\<lparr>fpos := length pre + length ys + 2\<rparr>)\<lparr>fpos := length (pre @ a # ys @ [b]) + length xs\<rparr>) (of_char a) (of_char b) 1 d"
    using Pair.prems by (intro Pair.IH(2) [where post = post]) simp_all
  finally show ?case by (simp add: add.assoc)
qed


lemma fm_backward_skip:
  assumes "balanced a b seg" and "a \<noteq> b"
  shows "bytes f = pre @ seg @ post \<Longrightarrow> pre \<noteq> [] \<Longrightarrow> fpos f = length pre + length seg - 1 \<Longrightarrow> 1 \<le> d \<Longrightarrow>
     ffindc_matching_loop f (of_char b) (of_char a) (- 1) d =
     ffindc_matching_loop (f\<lparr>fpos := length pre - 1\<rparr>) (of_char b) (of_char a) (- 1) d"
  using assms(1)
proof (induction arbitrary: pre post f d)
  case Nil
  then show ?case by (simp add: fpos_same)
next
  case (Other x xs)
  have "ffindc_matching_loop f (of_char b) (of_char a) (- 1) d =
        ffindc_matching_loop (f\<lparr>fpos := length (pre @ [x]) - 1\<rparr>) (of_char b) (of_char a) (- 1) d"
    using Other.prems by (intro Other.IH [where post = post]) simp_all
  also have "\<dots> = ffindc_matching_loop (fmove (f\<lparr>fpos := length pre\<rparr>) (- 1)) (of_char b) (of_char a) (- 1) d"
    using Other.prems Other.hyps(1,2) by (subst fm_loop_other) (simp_all add: nth_append)
  finally show ?case by (simp add: fmove_m1)
next
  case (Pair ys xs)
  have "ffindc_matching_loop f (of_char b) (of_char a) (- 1) d =
        ffindc_matching_loop (f\<lparr>fpos := length (pre @ a # ys @ [b]) - 1\<rparr>) (of_char b) (of_char a) (- 1) d"
    using Pair.prems by (intro Pair.IH(2) [where post = post]) simp_all
  also have "\<dots> = ffindc_matching_loop (f\<lparr>fpos := length pre + length ys\<rparr>) (of_char b) (of_char a) (- 1) (d + 1)"
    using Pair.prems by (subst fm_loop_open) (simp_all add: nth_append fmove_m1)
  also have "\<dots> = ffindc_matching_loop ((f\<lparr>fpos := length pre + length ys\<rparr>)\<lparr>fpos := length (pre @ [a]) - 1\<rparr>) (of_char b) (of_char a) (- 1) (d + 1)"
    using Pair.prems by (intro Pair.IH(1) [where post = "b # xs @ post"]) simp_all
  also have "\<dots> = ffindc_matching_loop (fmove (f\<lparr>fpos := length pre\<rparr>) (- 1)) (of_char b) (of_char a) (- 1) d"
    using Pair.prems assms(2) by (subst fm_loop_close) (simp_all add: nth_append)
  finally show ?case by (simp add: fmove_m1)
qed

lemma ffindc_matching_scan:
  assumes "balanced a b seg" and "a \<noteq> b" and "of_char a < (128::nat)" and "of_char b < (128::nat)"
    and "bytes f = pre @ a # seg @ b # post"
  shows "(fpos f = length pre \<and> 0 \<le> dir \<longrightarrow>
           ffindc_matching f (lit a) (lit b) dir = Some (of_char b, f\<lparr>fpos := length pre + length seg + 1\<rparr>))
       \<and> (fpos f = length pre + length seg + 1 \<and> dir < 0 \<longrightarrow>
           ffindc_matching f (lit b) (lit a) dir = Some (of_char a, f\<lparr>fpos := length pre\<rparr>))"
proof (intro conjI impI)
  assume h: "fpos f = length pre \<and> 0 \<le> dir"
  have "ffindc_matching f (lit a) (lit b) dir = ffindc_matching_loop f (of_char a) (of_char b) 1 0"
    using h assms(3,4) by (simp add: ffindc_matching_def sint_lit_ascii)
  also have "\<dots> = ffindc_matching_loop (fmove f 1) (of_char a) (of_char b) 1 1"
    using h assms(5) by (subst fm_loop_open) simp_all
  also have "\<dots> = ffindc_matching_loop ((fmove f 1)\<lparr>fpos := length (pre @ [a]) + length seg\<rparr>) (of_char a) (of_char b) 1 1"
    using h assms(5) by (intro fm_forward_skip [OF assms(1,2), where post = "b # post"]) (simp_all add: fmove_1)
  also have "\<dots> = Some (of_char b, f\<lparr>fpos := length pre + length seg + 1\<rparr>)"
    using assms(2,5) by (subst fm_loop_close) (simp_all add: fmove_1 nth_append)
  finally show "ffindc_matching f (lit a) (lit b) dir = Some (of_char b, f\<lparr>fpos := length pre + length seg + 1\<rparr>)" .
next
  assume h: "fpos f = length pre + length seg + 1 \<and> dir < 0"
  have "ffindc_matching f (lit b) (lit a) dir = ffindc_matching_loop f (of_char b) (of_char a) (- 1) 0"
    using h assms(3,4) by (simp add: ffindc_matching_def sint_lit_ascii)
  also have "\<dots> = ffindc_matching_loop (fmove f (- 1)) (of_char b) (of_char a) (- 1) 1"
    using h assms(5) by (subst fm_loop_open) (simp_all add: nth_append)
  also have "\<dots> = ffindc_matching_loop ((fmove f (- 1))\<lparr>fpos := length (pre @ [a]) - 1\<rparr>) (of_char b) (of_char a) (- 1) 1"
    using h assms(5) by (intro fm_backward_skip [OF assms(1,2), where post = "b # post"]) (simp_all add: fmove_m1)
  also have "\<dots> = Some (of_char a, f\<lparr>fpos := length pre\<rparr>)"
    using assms(2,5) by (subst fm_loop_close) (simp_all add: fmove_m1 nth_append)
  finally show "ffindc_matching f (lit b) (lit a) dir = Some (of_char a, f\<lparr>fpos := length pre\<rparr>)" .
qed

text \<open>
  C2. With the cursor on a delimiter that has a matching counterpart, \<open>ffindc_matching\<close>
  returns with the cursor on that counterpart, nested pairs in between counted and passed:
  scanning forwards (\<open>direction\<close> not negative) from an \<open>a\<close> to the \<open>b\<close> that closes it, and
  scanning backwards (\<open>direction\<close> negative) from that \<open>b\<close> to the \<open>a\<close>; the value returned is
  the delimiter found. The delimiters are two different 7-bit characters.
\<close>

theorem ffindc_matching_finds_match:
  assumes "balanced a b seg" and "a \<noteq> b" and "of_char a < (128::nat)" and "of_char b < (128::nat)"
    and "bytes f = pre @ a # seg @ b # post"
  shows "(fpos f = length pre \<and> 0 \<le> dir \<longrightarrow>
           ffindc_matching f (lit a) (lit b) dir = Some (of_char b, f\<lparr>fpos := length pre + length seg + 1\<rparr>))
       \<and> (fpos f = length pre + length seg + 1 \<and> dir < 0 \<longrightarrow>
           ffindc_matching f (lit b) (lit a) dir = Some (of_char a, f\<lparr>fpos := length pre\<rparr>))"
  using assms by (rule ffindc_matching_scan)

theorem ffindc_matching_finds_match_witness:
  "balanced CHR ''('' CHR '')'' ''a(b)c''
   \<and> ffindc_matching \<lparr>bytes = ''x(a(b)c)y'', fpos = 1\<rparr> (lit CHR ''('') (lit CHR '')'') 1 =
       Some (41, \<lparr>bytes = ''x(a(b)c)y'', fpos = 7\<rparr>)
   \<and> ffindc_matching \<lparr>bytes = ''x(a(b)c)y'', fpos = 7\<rparr> (lit CHR '')'') (lit CHR ''('') (- 1) =
       Some (40, \<lparr>bytes = ''x(a(b)c)y'', fpos = 1\<rparr>)"
proof -
  have c: "balanced CHR ''('' CHR '')'' ''c''" and b: "balanced CHR ''('' CHR '')'' ''b''"
    by (intro balanced.intros; simp)+
  have "balanced CHR ''('' CHR '')'' (CHR ''('' # ''b'' @ CHR '')'' # ''c'')"
    by (rule balanced.Pair [OF b c])
  then have bal: "balanced CHR ''('' CHR '')'' ''a(b)c''"
    by (intro balanced.Other [of "CHR ''a''"]) simp_all
  show ?thesis
    using bal
      ffindc_matching_finds_match [OF bal, of "\<lparr>bytes = ''x(a(b)c)y'', fpos = 1\<rparr>" "''x''" "''y''" 1]
      ffindc_matching_finds_match [OF bal, of "\<lparr>bytes = ''x(a(b)c)y'', fpos = 7\<rparr>" "''x''" "''y''" "- 1"]
    by simp
qed


section \<open>Loops\<close>

lemma jf_plain:
  assumes "fpos f < length (bytes f)" and "plain (bytes f ! fpos f)"
  shows "jump_forward_loop f cd d0 = jump_forward_loop (fmove f 1) cd d0"
  using assms
  by (subst jump_forward_loop.simps)
     (simp add: freadc_in to_char_of_char sint_lit_EOF lit_eq_iff plain_def)

lemma jf_open:
  assumes "fpos f < length (bytes f)" and "bytes f ! fpos f = CHR ''[''"
  shows "jump_forward_loop f cd d0 = jump_forward_loop (fmove f 1) (cd + 1) d0"
  using assms
  by (subst jump_forward_loop.simps)
     (simp add: freadc_in to_char_def lit_def EOF_def)

lemma jf_close:
  assumes "fpos f < length (bytes f)" and "bytes f ! fpos f = CHR '']''"
  shows "jump_forward_loop f cd d0 =
     (if cd = d0 then Some f else jump_forward_loop (fmove f 1) (cd - 1) d0)"
  using assms
  by (subst jump_forward_loop.simps)
     (simp add: freadc_in to_char_def lit_def EOF_def)

lemma jf_comment:
  assumes "fpos f < length (bytes f)" and "bytes f ! fpos f = CHR ''(''"
  shows "jump_forward_loop f cd d0 =
     (case ffindc_matching f (lit CHR ''('') (lit CHR '')'') 1 of
        None \<Rightarrow> None
      | Some (v, file2) \<Rightarrow> jump_forward_loop (fmove file2 1) cd d0)"
  using assms
  by (subst jump_forward_loop.simps)
     (simp add: freadc_in to_char_def lit_def EOF_def)

lemma word32_level_neq:
  assumes "Suc k < 2 ^ 32"
  shows "(d0 :: 32 word) + of_nat (Suc k) \<noteq> d0"
proof -
  have "(of_nat (Suc k) :: 32 word) \<noteq> 0"
    using assms by (intro of_nat_neq_0) simp_all
  then show ?thesis by simp
qed

lemma jf_skip:
  assumes "well_nested seg"
  shows "bytes f = pre @ seg @ post \<Longrightarrow> fpos f = length pre \<Longrightarrow> k + length seg < 2 ^ 32 \<Longrightarrow>
     jump_forward_loop f (d0 + of_nat k) d0 =
     jump_forward_loop (f\<lparr>fpos := length pre + length seg\<rparr>) (d0 + of_nat k) d0"
  using assms
proof (induction arbitrary: pre post f k)
  case Nil
  then show ?case by (simp add: fpos_same)
next
  case (Plain x xs)
  have "jump_forward_loop f (d0 + of_nat k) d0 = jump_forward_loop (fmove f 1) (d0 + of_nat k) d0"
    using Plain.prems Plain.hyps(1) by (intro jf_plain) simp_all
  also have "\<dots> = jump_forward_loop ((fmove f 1)\<lparr>fpos := length (pre @ [x]) + length xs\<rparr>) (d0 + of_nat k) d0"
    using Plain.prems by (intro Plain.IH [where post = post]) (simp_all add: fmove_1)
  finally show ?case by (simp add: fmove_1)
next
  case (Loop ys xs)
  have neq: "d0 + of_nat (Suc k) \<noteq> d0"
    using Loop.prems(3) by (intro word32_level_neq) simp
  have "jump_forward_loop f (d0 + of_nat k) d0 = jump_forward_loop (fmove f 1) (d0 + of_nat (Suc k)) d0"
    using Loop.prems by (subst jf_open) (simp_all add: ac_simps)
  also have "\<dots> = jump_forward_loop ((fmove f 1)\<lparr>fpos := length (pre @ [CHR ''['']) + length ys\<rparr>) (d0 + of_nat (Suc k)) d0"
    using Loop.prems by (intro Loop.IH(1) [where post = "CHR '']'' # xs @ post"]) (simp_all add: fmove_1)
  also have "\<dots> = jump_forward_loop (f\<lparr>fpos := length pre + length ys + 2\<rparr>) (d0 + of_nat k) d0"
    using Loop.prems neq by (subst jf_close) (simp_all add: fmove_1 nth_append)
  also have "\<dots> = jump_forward_loop ((f\<lparr>fpos := length pre + length ys + 2\<rparr>)\<lparr>fpos := length (pre @ CHR ''['' # ys @ [CHR '']'']) + length xs\<rparr>) (d0 + of_nat k) d0"
    using Loop.prems by (intro Loop.IH(2) [where post = post]) simp_all
  finally show ?case by (simp add: add.assoc)
next
  case (Comment cm xs)
  have fm: "ffindc_matching f (lit CHR ''('') (lit CHR '')'') 1 =
      Some (of_char CHR '')'', f\<lparr>fpos := length pre + length cm + 1\<rparr>)"
    using Comment.prems
      ffindc_matching_scan [OF Comment.hyps(1), of f pre "xs @ post" 1]
    by simp
  have "jump_forward_loop f (d0 + of_nat k) d0 =
        jump_forward_loop (f\<lparr>fpos := length pre + length cm + 2\<rparr>) (d0 + of_nat k) d0"
    using Comment.prems by (subst jf_comment) (simp_all add: fm fmove_1)
  also have "\<dots> = jump_forward_loop ((f\<lparr>fpos := length pre + length cm + 2\<rparr>)\<lparr>fpos := length (pre @ CHR ''('' # cm @ [CHR '')'']) + length xs\<rparr>) (d0 + of_nat k) d0"
    using Comment.prems by (intro Comment.IH [where post = post]) simp_all
  finally show ?case by (simp add: add.assoc)
qed

lemma jb_plain:
  assumes "fpos f < length (bytes f)" and "plain (bytes f ! fpos f)"
  shows "jump_backward_loop f cd d0 = jump_backward_loop (fmoveback f 1) cd d0"
  using assms
  by (subst jump_backward_loop.simps)
     (simp add: freadc_in to_char_of_char lit_eq_iff plain_def)

lemma jb_close:
  assumes "fpos f < length (bytes f)" and "bytes f ! fpos f = CHR '']''"
  shows "jump_backward_loop f cd d0 = jump_backward_loop (fmoveback f 1) (cd + 1) d0"
  using assms
  by (subst jump_backward_loop.simps)
     (simp add: freadc_in to_char_def lit_def)

lemma jb_open:
  assumes "fpos f < length (bytes f)" and "bytes f ! fpos f = CHR ''[''"
  shows "jump_backward_loop f cd d0 =
     (if cd = d0 then Some f else jump_backward_loop (fmoveback f 1) (cd - 1) d0)"
  using assms
  by (subst jump_backward_loop.simps)
     (simp add: freadc_in to_char_def lit_def)

lemma jb_comment:
  assumes "fpos f < length (bytes f)" and "bytes f ! fpos f = CHR '')''"
  shows "jump_backward_loop f cd d0 =
     (case ffindc_matching f (lit CHR '')'') (lit CHR ''('') (- 1) of
        None \<Rightarrow> None
      | Some (v, file2) \<Rightarrow> jump_backward_loop (fmoveback file2 1) cd d0)"
  using assms
  by (subst jump_backward_loop.simps)
     (simp add: freadc_in to_char_def lit_def)

lemma jb_skip:
  assumes "well_nested seg"
  shows "bytes f = pre @ seg @ post \<Longrightarrow> pre \<noteq> [] \<Longrightarrow> fpos f = length pre + length seg - 1 \<Longrightarrow>
     k + length seg < 2 ^ 32 \<Longrightarrow>
     jump_backward_loop f (d0 + of_nat k) d0 =
     jump_backward_loop (f\<lparr>fpos := length pre - 1\<rparr>) (d0 + of_nat k) d0"
  using assms
proof (induction arbitrary: pre post f k)
  case Nil
  then show ?case by (simp add: fpos_same)
next
  case (Plain x xs)
  have "jump_backward_loop f (d0 + of_nat k) d0 =
        jump_backward_loop (f\<lparr>fpos := length (pre @ [x]) - 1\<rparr>) (d0 + of_nat k) d0"
    using Plain.prems by (intro Plain.IH [where post = post]) simp_all
  also have "\<dots> = jump_backward_loop (fmoveback (f\<lparr>fpos := length pre\<rparr>) 1) (d0 + of_nat k) d0"
    using Plain.prems Plain.hyps(1) by (subst jb_plain) (simp_all add: nth_append)
  finally show ?case by (simp add: fmoveback_1)
next
  case (Loop ys xs)
  have neq: "d0 + of_nat (Suc k) \<noteq> d0"
    using Loop.prems(4) by (intro word32_level_neq) simp
  have "jump_backward_loop f (d0 + of_nat k) d0 =
        jump_backward_loop (f\<lparr>fpos := length (pre @ CHR ''['' # ys @ [CHR '']'']) - 1\<rparr>) (d0 + of_nat k) d0"
    using Loop.prems by (intro Loop.IH(2) [where post = post]) simp_all
  also have "\<dots> = jump_backward_loop (f\<lparr>fpos := length pre + length ys\<rparr>) (d0 + of_nat (Suc k)) d0"
    using Loop.prems by (subst jb_close) (simp_all add: nth_append fmoveback_1 ac_simps)
  also have "\<dots> = jump_backward_loop ((f\<lparr>fpos := length pre + length ys\<rparr>)\<lparr>fpos := length (pre @ [CHR ''['']) - 1\<rparr>) (d0 + of_nat (Suc k)) d0"
    using Loop.prems by (intro Loop.IH(1) [where post = "CHR '']'' # xs @ post"]) simp_all
  also have "\<dots> = jump_backward_loop (fmoveback (f\<lparr>fpos := length pre\<rparr>) 1) (d0 + of_nat k) d0"
    using Loop.prems neq by (subst jb_open) (simp_all add: nth_append)
  finally show ?case by (simp add: fmoveback_1)
next
  case (Comment cm xs)
  have "jump_backward_loop f (d0 + of_nat k) d0 =
        jump_backward_loop (f\<lparr>fpos := length (pre @ CHR ''('' # cm @ [CHR '')'']) - 1\<rparr>) (d0 + of_nat k) d0"
    using Comment.prems by (intro Comment.IH [where post = post]) simp_all
  also have "\<dots> = jump_backward_loop (fmoveback (f\<lparr>fpos := length pre\<rparr>) 1) (d0 + of_nat k) d0"
  proof -
    let ?f = "f\<lparr>fpos := length pre + length cm + 1\<rparr>"
    have "ffindc_matching ?f (lit CHR '')'') (lit CHR ''('') (- 1) =
        Some (of_char CHR ''('', ?f\<lparr>fpos := length pre\<rparr>)"
      using Comment.prems
        ffindc_matching_scan [OF Comment.hyps(1), of ?f pre "xs @ post" "- 1"]
      by simp
    then show ?thesis
      using Comment.prems by (subst jb_comment) (simp_all add: nth_append)
  qed
  finally show ?case by (simp add: fmoveback_1)
qed

lemma loop_open:
  assumes "bytes f = pre @ CHR ''['' # body @ CHR '']'' # post" and "well_nested body"
    and "length (bytes f) < 2 ^ 32" and "fpos f = length pre"
    and "0 \<le> stackptr g" and "stackptr g < STACK_SIZE"
  shows "iteration f g = Some (Inr (f\<lparr>fpos := (if deref g = 0 then length pre + length body + 2 else length pre + 1)\<rparr>,
                                   g\<lparr>depth := depth g + 1\<rparr>))"
proof -
  have rd: "iteration f g = (case jump_forward f g of None \<Rightarrow> None | Some (f2, g2) \<Rightarrow> Some (Inr (fmove f2 1, g2)))"
    using assms(1,4,5,6)
    by (simp add: iteration_def freadc_in to_char_def lit_def EOF_def command_def split: option.splits)
  show ?thesis
  proof (cases "deref g = 0")
    case False
    then show ?thesis
      using assms(4) by (simp add: rd jump_forward_def deref_def fmove_1)
  next
    case True
    have "jump_forward_loop (fmove f 1) (depth g + 1 + of_nat 0) (depth g + 1) =
          jump_forward_loop ((fmove f 1)\<lparr>fpos := length (pre @ [CHR ''['']) + length body\<rparr>) (depth g + 1 + of_nat 0) (depth g + 1)"
      using assms(1,3,4)
      by (intro jf_skip [OF assms(2), where post = "CHR '']'' # post"]) (simp_all add: fmove_1)
    also have "\<dots> = Some (f\<lparr>fpos := length pre + length body + 1\<rparr>)"
      using assms(1) by (subst jf_close) (simp_all add: fmove_1 nth_append)
    finally show ?thesis
      using True by (simp add: rd jump_forward_def deref_def fmove_1)
  qed
qed

lemma loop_close:
  assumes "bytes f = pre @ CHR ''['' # body @ CHR '']'' # post" and "well_nested body"
    and "length (bytes f) < 2 ^ 32" and "fpos f = length pre + length body + 1"
    and "0 \<le> stackptr g" and "stackptr g < STACK_SIZE"
  shows "iteration f g = Some (Inr (f\<lparr>fpos := (if deref g = 0 then length pre + length body + 2
                                               else if pre = [] then 1 else length pre)\<rparr>,
                                   g\<lparr>depth := depth g - 1\<rparr>))"
proof -
  have rd: "iteration f g = (case jump_backward f g of None \<Rightarrow> None | Some (f2, g2) \<Rightarrow> Some (Inr (fmove f2 1, g2)))"
    using assms(1,4,5,6)
    by (simp add: iteration_def freadc_in to_char_def lit_def EOF_def command_def nth_append split: option.splits)
  show ?thesis
  proof (cases "deref g = 0")
    case True
    then show ?thesis
      using assms(4) by (simp add: rd jump_backward_def fmove_1)
  next
    case False
    have "jump_backward_loop (fmoveback f 1) (depth g + of_nat 0) (depth g) =
          jump_backward_loop ((fmoveback f 1)\<lparr>fpos := length (pre @ [CHR ''['']) - 1\<rparr>) (depth g + of_nat 0) (depth g)"
      using assms(1,3,4)
      by (intro jb_skip [OF assms(2), where post = "CHR '']'' # post"]) (simp_all add: fmoveback_1)
    also have "\<dots> = Some (f\<lparr>fpos := length pre\<rparr>)"
      using assms(1) by (subst jb_open) (simp_all add: fmoveback_1 nth_append)
    finally show ?thesis
      using False by (cases pre) (simp_all add: rd jump_backward_def fmove_1 fmoveback_1)
  qed
qed

text \<open>No pass changes the contents of the file: a reachable state reads the script.\<close>

lemma bytes_freadc: "freadc f = (r, f1) \<Longrightarrow> bytes f1 = bytes f"
  by (auto simp: freadc_def fgetc_def fseek_cur_def split: if_splits)

lemma bytes_fmove: "bytes (fmove f n) = bytes f"
  by (simp add: fmove_def fseek_cur_def)

lemma bytes_ffindc_matching_loop:
  "ffindc_matching_loop f c1 c2 dir d = Some y \<Longrightarrow> bytes (snd y) = bytes f"
proof (induction rule: ffindc_matching_loop.raw_induct [rotated 1, consumes 1, case_names step])
  case (step rec f c1 c2 dir d y)
  obtain r f1 where rd: "freadc f = (r, f1)" by (cases "freadc f")
  note b = bytes_freadc [OF rd]
  have onward: "bytes (snd y) = bytes f" if "rec (fmove f1 dir) c1 c2 dir d' = Some y" for d'
    using step(1) [OF that] by (simp add: bytes_fmove b)
  from step(2) [unfolded rd] b show ?case
    by (auto split: if_splits intro: onward)
qed


lemma bytes_fmoveback: "bytes (fmoveback f n) = bytes f"
  by (simp add: fmoveback_def fseek_cur_def)

lemma bytes_ffindc: "bytes (snd (ffindc f c)) = bytes f"
proof (induction f c rule: ffindc.induct)
  case (1 f c)
  obtain ret f1 where rd: "freadc f = (ret, f1)" by (cases "freadc f")
  note b = bytes_freadc [OF rd]
  show ?case
    using rd b 1 [OF rd [symmetric] refl]
    by (subst ffindc.simps) (auto simp: bytes_fmove)
qed

lemma bytes_ffindc_matching:
  "ffindc_matching f c1 c2 dir = Some (v, f') \<Longrightarrow> bytes f' = bytes f"
  using bytes_ffindc_matching_loop [of f _ _ _ _ "(v, f')"] by (simp add: ffindc_matching_def)

lemma bytes_jump_forward_loop:
  "jump_forward_loop f cd d0 = Some f' \<Longrightarrow> bytes f' = bytes f"
proof (induction rule: jump_forward_loop.raw_induct [rotated 1, consumes 1, case_names step])
  case (step rec f cd d0 y)
  obtain r f1 where rd: "freadc f = (r, f1)" by (cases "freadc f")
  note b = bytes_freadc [OF rd]
  have onward: "bytes y = bytes f" if "rec (fmove f2 1) cd' d0 = Some y" and "bytes f2 = bytes f" for f2 cd'
    using step(1) [OF that(1)] that(2) by (simp add: bytes_fmove)
  have past: "bytes y = bytes f"
    if "ffindc_matching f1 c1 c2 n = Some (v, f2)" and "rec (fmove f2 1) cd' d0 = Some y" for c1 c2 n v f2 cd'
    using onward [OF that(2)] bytes_ffindc_matching [OF that(1)] b by simp
  from step(2) [unfolded rd] b show ?case
    by (auto simp: Let_def split: if_splits option.splits intro: onward past)
qed

lemma bytes_jump_backward_loop:
  "jump_backward_loop f cd d0 = Some f' \<Longrightarrow> bytes f' = bytes f"
proof (induction rule: jump_backward_loop.raw_induct [rotated 1, consumes 1, case_names step])
  case (step rec f cd d0 y)
  obtain r f1 where rd: "freadc f = (r, f1)" by (cases "freadc f")
  note b = bytes_freadc [OF rd]
  have onward: "bytes y = bytes f" if "rec (fmoveback f2 1) cd' d0 = Some y" and "bytes f2 = bytes f" for f2 cd'
    using step(1) [OF that(1)] that(2) by (simp add: bytes_fmoveback)
  have past: "bytes y = bytes f"
    if "ffindc_matching f1 c1 c2 n = Some (v, f2)" and "rec (fmoveback f2 1) cd' d0 = Some y" for c1 c2 n v f2 cd'
    using onward [OF that(2)] bytes_ffindc_matching [OF that(1)] b by simp
  from step(2) [unfolded rd] b show ?case
    by (auto simp: Let_def split: if_splits option.splits intro: onward past)
qed

lemma bytes_iteration:
  assumes "iteration f g = Some (Inr (f', g'))"
  shows "bytes f' = bytes f"
proof -
  obtain r f1 where rd: "freadc f = (r, f1)" by (cases "freadc f")
  note b = bytes_freadc [OF rd]
  from assms [unfolded iteration_def rd] b show ?thesis
    by (auto simp: command_def Let_def jump_forward_def jump_backward_def bytes_fmove
          bytes_fmoveback bytes_ffindc
        split: if_splits option.splits sum.splits prod.splits
        dest!: bytes_ffindc_matching bytes_jump_forward_loop bytes_jump_backward_loop)
qed

lemma reachable_bytes: "reachable src input f g \<Longrightarrow> bytes f = src"
  by (induction rule: reachable.induct) (auto dest: bytes_iteration)

lemma iteration_fpos_pos:
  assumes "iteration f g = Some (Inr (f', g'))"
  shows "0 < fpos f'"
proof -
  obtain f2 where "f' = fmove f2 1"
    using assms
    by (auto simp: iteration_def Let_def split: prod.splits if_splits option.splits sum.splits)
  then show ?thesis by (simp add: fmove_1)
qed

lemma reachable_at_start:
  assumes "reachable src input f g" and "fpos f = 0"
  shows "g = globals0 input"
  using assms by (induction rule: reachable.induct) (auto dest: iteration_fpos_pos)

lemma deref_globals0: "deref (globals0 input) = 0"
  by (simp add: deref_def globals0_def STACK_SIZE_def)

text \<open>
  The scan of \<open>jump_forward\<close> keeps the byte it reads in a \<open>char\<close> and compares that with
  \<open>EOF\<close>, so it ends at a byte \<open>0xFF\<close> of the body that is not inside a round-bracket comment
  (there \<open>ffindc_matching\<close> reads it as an \<open>int\<close>). In the script \<open>#\<close> \<open>0xFF\<close> newline \<open>[#\<close>
  \<open>0xFF\<close> newline \<open>+]\<close> the loop is entered on a zero cell, the scan ends on the \<open>0xFF\<close> of
  its body, and the fourth pass runs the \<open>+\<close>. \<open>well_nested\<close> has no such byte.
\<close>

lemma loop_skip_stops_at_0xFF:
  "passes 4 \<lparr>bytes = ''#'' @ [CHR 0xFF] @ ''\<newline>[#'' @ [CHR 0xFF] @ ''\<newline>+]'', fpos = 0\<rparr> (globals0 input) =
     Some (\<lparr>bytes = ''#'' @ [CHR 0xFF] @ ''\<newline>[#'' @ [CHR 0xFF] @ ''\<newline>+]'', fpos = 8\<rparr>,
           (assign (globals0 input) 1)\<lparr>depth := 1\<rparr>)"
  by (simp add: run_defs jump_forward_loop.simps ffindc.simps passes_numeral)

text \<open>
  C1, as amended. The scans of \<open>jump_forward\<close> and \<open>jump_backward\<close> read the bytes of a \<open>#\<close>
  line as code: a \<open>[\<close> or \<open>]\<close> there counts for the nesting, as the header of the program
  asks (\<open>Brackets within must be matched\<close>). So take a loop whose body is well nested with
  the brackets of its \<open>#\<close> lines counted (\<open>well_nested\<close>: plain bytes, loops, and round-bracket
  comments with any balanced content; no byte \<open>0xFF\<close> outside those comments), in a script
  shorter than \<open>2^32\<close> bytes, and a
  state reachable in a run of the script, with the cursor on the \<open>[\<close> of the loop and
  \<open>stackptr\<close> inside the array. On a zero
  cell the pass leaves the cursor just after the matching \<open>]\<close>, with nothing but \<open>depth\<close>
  changed: no command of the body has run. On a nonzero cell the pass leaves the cursor on
  the first byte of the body; and whenever the cursor later stands on the matching \<open>]\<close>,
  that pass puts it back on the \<open>[\<close> if the cell is nonzero, so that the next pass tests
  the cell at the loop head again, and just after the \<open>]\<close> if the cell is 0.
\<close>

theorem loop_semantics:
  assumes "src = pre @ CHR ''['' # body @ CHR '']'' # post" and "well_nested body"
    and "length src < 2 ^ 32"
    and "reachable src input f g" and "fpos f = length pre"
    and "0 \<le> stackptr g" and "stackptr g < STACK_SIZE"
  shows "(deref g = 0 \<longrightarrow>
            iteration f g = Some (Inr (f\<lparr>fpos := length pre + length body + 2\<rparr>, g\<lparr>depth := depth g + 1\<rparr>)))
       \<and> (deref g \<noteq> 0 \<longrightarrow>
            iteration f g = Some (Inr (f\<lparr>fpos := length pre + 1\<rparr>, g\<lparr>depth := depth g + 1\<rparr>))
          \<and> (\<forall>g2. 0 \<le> stackptr g2 \<and> stackptr g2 < STACK_SIZE \<longrightarrow>
                iteration (f\<lparr>fpos := length pre + length body + 1\<rparr>) g2 =
                  Some (Inr (f\<lparr>fpos := (if deref g2 = 0 then length pre + length body + 2 else length pre)\<rparr>,
                             g2\<lparr>depth := depth g2 - 1\<rparr>))))"
proof -
  have src: "bytes f = src"
    by (rule reachable_bytes [OF assms(4)])
  note script = assms(1) [folded src] and short = assms(3) [folded src]
  note pass_open = loop_open [OF script assms(2) short assms(5,6,7)]
  have head: "pre \<noteq> []" if "deref g \<noteq> 0"
  proof
    assume "pre = []"
    with assms(5) have "fpos f = 0" by simp
    from reachable_at_start [OF assms(4) this] that show False
      by (simp add: deref_globals0)
  qed
  have pass_close: "iteration (f\<lparr>fpos := length pre + length body + 1\<rparr>) g2 =
      Some (Inr (f\<lparr>fpos := (if deref g2 = 0 then length pre + length body + 2
                             else if pre = [] then 1 else length pre)\<rparr>,
                 g2\<lparr>depth := depth g2 - 1\<rparr>))"
    if "0 \<le> stackptr g2 \<and> stackptr g2 < STACK_SIZE" for g2
    using loop_close [of "f\<lparr>fpos := length pre + length body + 1\<rparr>" pre body post g2, OF _ assms(2)]
      script short that
    by simp
  show ?thesis
    using pass_open head pass_close by simp
qed

theorem loop_semantics_witness:
  "well_nested ''-''
   \<and> reachable ''[-]'' [] \<lparr>bytes = ''[-]'', fpos = 0\<rparr> (globals0 [])
   \<and> deref (globals0 []) = 0
   \<and> iteration \<lparr>bytes = ''[-]'', fpos = 0\<rparr> (globals0 []) =
       Some (Inr (\<lparr>bytes = ''[-]'', fpos = 3\<rparr>, (globals0 [])\<lparr>depth := 1\<rparr>))
   \<and> reachable ''+[-]'' [] \<lparr>bytes = ''+[-]'', fpos = 1\<rparr> (assign (globals0 []) 1)
   \<and> deref (assign (globals0 []) 1) \<noteq> 0
   \<and> iteration \<lparr>bytes = ''+[-]'', fpos = 1\<rparr> (assign (globals0 []) 1) =
       Some (Inr (\<lparr>bytes = ''+[-]'', fpos = 2\<rparr>, (assign (globals0 []) 1)\<lparr>depth := 1\<rparr>))
   \<and> iteration \<lparr>bytes = ''+[-]'', fpos = 3\<rparr> ((assign (globals0 []) 1)\<lparr>depth := 1\<rparr>) =
       Some (Inr (\<lparr>bytes = ''+[-]'', fpos = 1\<rparr>, assign (globals0 []) 1))
   \<and> iteration \<lparr>bytes = ''+[-]'', fpos = 3\<rparr> ((globals0 [])\<lparr>depth := 1\<rparr>) =
       Some (Inr (\<lparr>bytes = ''+[-]'', fpos = 4\<rparr>, globals0 []))"
proof -
  let ?g0 = "globals0 []" and ?g1 = "assign (globals0 []) 1"
  have wn: "well_nested ''-''"
    by (intro well_nested.intros) (simp_all add: plain_def)
  have r0: "reachable ''[-]'' [] \<lparr>bytes = ''[-]'', fpos = 0\<rparr> ?g0"
    by (rule reachable.start) simp_all
  have "iteration \<lparr>bytes = ''+[-]'', fpos = 0\<rparr> ?g0 = Some (Inr (\<lparr>bytes = ''+[-]'', fpos = 1\<rparr>, ?g1))"
    by (simp add: run_defs)
  then have r1: "reachable ''+[-]'' [] \<lparr>bytes = ''+[-]'', fpos = 1\<rparr> ?g1"
    by (rule reachable.pass [OF reachable.start [OF refl refl]])
  have d0: "deref ?g0 = 0" and d1: "deref ?g1 \<noteq> 0" and d1': "deref (?g1\<lparr>depth := 1\<rparr>) \<noteq> 0"
      and d0': "deref (?g0\<lparr>depth := 1\<rparr>) = 0"
    by (simp_all add: run_defs)
  have b0: "0 \<le> stackptr ?g0" "stackptr ?g0 < STACK_SIZE" and b1: "0 \<le> stackptr ?g1" "stackptr ?g1 < STACK_SIZE"
    by (simp_all add: run_defs)
  have b1': "0 \<le> stackptr (?g1\<lparr>depth := 1\<rparr>) \<and> stackptr (?g1\<lparr>depth := 1\<rparr>) < STACK_SIZE"
    and b0': "0 \<le> stackptr (?g0\<lparr>depth := 1\<rparr>) \<and> stackptr (?g0\<lparr>depth := 1\<rparr>) < STACK_SIZE"
    by (simp_all add: run_defs)
  have A: "iteration \<lparr>bytes = ''[-]'', fpos = 0\<rparr> ?g0 =
       Some (Inr (\<lparr>bytes = ''[-]'', fpos = 3\<rparr>, ?g0\<lparr>depth := 1\<rparr>))"
    using loop_semantics [where f = "\<lparr>bytes = ''[-]'', fpos = 0\<rparr>" and pre = "[]" and body = "''-''"
        and post = "[]" and src = "''[-]''" and input = "[]" and g = ?g0, OF _ wn _ r0 _ b0] d0
    by (simp add: globals0_def)
  note T = loop_semantics [where f = "\<lparr>bytes = ''+[-]'', fpos = 1\<rparr>" and pre = "''+''" and body = "''-''"
      and post = "[]" and src = "''+[-]''" and input = "[]" and g = ?g1,
      OF _ wn _ r1 _ b1, simplified, THEN conjunct2, rule_format, OF d1]
  have B: "iteration \<lparr>bytes = ''+[-]'', fpos = 1\<rparr> ?g1 =
         Some (Inr (\<lparr>bytes = ''+[-]'', fpos = 2\<rparr>, ?g1\<lparr>depth := 1\<rparr>))"
    using T [THEN conjunct1] by (simp add: globals0_def assign_def eval_nat_numeral)
  have C: "iteration \<lparr>bytes = ''+[-]'', fpos = 3\<rparr> (?g1\<lparr>depth := 1\<rparr>) =
       Some (Inr (\<lparr>bytes = ''+[-]'', fpos = 1\<rparr>, ?g1))"
    using T [THEN conjunct2, rule_format, OF b1'] d1'
    by (simp add: globals0_def assign_def eval_nat_numeral)
  have D: "iteration \<lparr>bytes = ''+[-]'', fpos = 3\<rparr> (?g0\<lparr>depth := 1\<rparr>) =
       Some (Inr (\<lparr>bytes = ''+[-]'', fpos = 4\<rparr>, ?g0))"
    using T [THEN conjunct2, rule_format, OF b0'] d0'
    by (simp add: globals0_def eval_nat_numeral)
  show ?thesis
    using wn r0 d0 A r1 d1 B C D by blast
qed

text \<open>
  The claim as it stands, for every loop of a script that validation accepts, fails on the
  script \<open>#[\<close> newline \<open>[#]\<close> newline \<open>+>]\<close>: its loop is the \<open>[\<close> at offset 3 with the \<open>]\<close> at
  offset 9, the two other brackets standing in \<open>#\<close> lines. The first pass skips the first
  line and leaves the cursor on that \<open>[\<close>, on a zero cell. The pass that dispatches it
  leaves the cursor at offset 6, after the \<open>]\<close> of the comment in the body, and the next
  three passes run the newline, the \<open>+\<close> and the \<open>>\<close> of the body.
\<close>

theorem loop_skip_stops_in_line_comment:
  "reachable ''#[\<newline>[#]\<newline>+>]'' [] \<lparr>bytes = ''#[\<newline>[#]\<newline>+>]'', fpos = 3\<rparr> (globals0 [])
   \<and> ''#[\<newline>[#]\<newline>+>]'' ! 3 = CHR ''[''
   \<and> deref (globals0 []) = 0
   \<and> iteration \<lparr>bytes = ''#[\<newline>[#]\<newline>+>]'', fpos = 3\<rparr> (globals0 []) =
       Some (Inr (\<lparr>bytes = ''#[\<newline>[#]\<newline>+>]'', fpos = 6\<rparr>, (globals0 [])\<lparr>depth := 1\<rparr>))
   \<and> passes 5 \<lparr>bytes = ''#[\<newline>[#]\<newline>+>]'', fpos = 0\<rparr> (globals0 []) =
       Some (\<lparr>bytes = ''#[\<newline>[#]\<newline>+>]'', fpos = 9\<rparr>,
             (globals0 [])\<lparr>stack := (stack (globals0 []))[0 := 1], stackptr := 1, depth := 1\<rparr>)"
proof -
  let ?src = "''#[\<newline>[#]\<newline>+>]''"
  have "iteration \<lparr>bytes = ?src, fpos = 0\<rparr> (globals0 []) =
      Some (Inr (\<lparr>bytes = ?src, fpos = 3\<rparr>, globals0 []))"
    by (simp add: run_defs ffindc.simps)
  then have r: "reachable ?src [] \<lparr>bytes = ?src, fpos = 3\<rparr> (globals0 [])"
    by (rule reachable.pass [OF reachable.start [OF refl refl]])
  have rest: "?src ! 3 = CHR ''[''
   \<and> deref (globals0 []) = 0
   \<and> iteration \<lparr>bytes = ?src, fpos = 3\<rparr> (globals0 []) =
       Some (Inr (\<lparr>bytes = ?src, fpos = 6\<rparr>, (globals0 [])\<lparr>depth := 1\<rparr>))
   \<and> passes 5 \<lparr>bytes = ?src, fpos = 0\<rparr> (globals0 []) =
       Some (\<lparr>bytes = ?src, fpos = 9\<rparr>,
             (globals0 [])\<lparr>stack := (stack (globals0 []))[0 := 1], stackptr := 1, depth := 1\<rparr>)"
    by (simp add: run_defs jump_forward_loop.simps ffindc.simps passes_numeral)
  from r rest show ?thesis by blast
qed

text \<open>
  C3. \<open>jump_backward\<close> stops on the matching \<open>[\<close> and moves one byte further back, for
  the \<open>fmove(file, 1)\<close> of the loop to land on the \<open>[\<close> (lemma \<open>loop_close\<close>). When the
  \<open>[\<close> is the first byte of the script that move fails, and the next byte read is the
  byte after the \<open>[\<close>. The script \<open>[]+][\<close> passes both validation passes; after three
  loop passes its cursor is on the \<open>]\<close> at offset 1, on a cell holding 1, and the pass
  that dispatches this \<open>]\<close> leaves the cursor at offset 1, with \<open>depth\<close> lowered and not
  raised again. The same for \<open>[-]\<close> entered on a cell holding 3: after the \<open>]\<close> the next
  byte read is the \<open>-\<close>.
\<close>

theorem loop_head_missed_at_offset_0:
  "fst (check_matching_brackets \<lparr>bytes = ''[]+]['', fpos = 0\<rparr> (lit CHR ''['') (lit CHR '']'') 0) = ERR_OK
   \<and> fst (check_matching_brackets \<lparr>bytes = ''[]+]['', fpos = 0\<rparr> (lit CHR ''('') (lit CHR '')'') 0) = ERR_OK
   \<and> passes 3 \<lparr>bytes = ''[]+]['', fpos = 0\<rparr> (globals0 input) =
       Some (\<lparr>bytes = ''[]+]['', fpos = 1\<rparr>, assign (globals0 input) 1)
   \<and> iteration \<lparr>bytes = ''[]+]['', fpos = 1\<rparr> (assign (globals0 input) 1) =
       Some (Inr (\<lparr>bytes = ''[]+]['', fpos = 1\<rparr>, (assign (globals0 input) 1)\<lparr>depth := 4294967295\<rparr>))
   \<and> passes 2 \<lparr>bytes = ''[-]'', fpos = 0\<rparr> (assign (globals0 input) 3) =
       Some (\<lparr>bytes = ''[-]'', fpos = 2\<rparr>, (assign (globals0 input) 2)\<lparr>depth := 1\<rparr>)
   \<and> iteration \<lparr>bytes = ''[-]'', fpos = 2\<rparr> ((assign (globals0 input) 2)\<lparr>depth := 1\<rparr>) =
       Some (Inr (\<lparr>bytes = ''[-]'', fpos = 1\<rparr>, assign (globals0 input) 2))"
  by (simp add: run_defs check_matching_brackets_loop.simps jump_forward_loop.simps
      jump_backward_loop.simps passes_numeral)

section \<open>Comments\<close>

lemma ffindc_step:
  assumes "fpos f < length (bytes f)" and "bytes f ! fpos f \<noteq> CHR 0x0A"
  shows "ffindc f (lit CHR 0x0A) = ffindc (fmove f 1) (lit CHR 0x0A)"
proof -
  have "sint (lit CHR 0x0A) = of_char CHR 0x0A"
    by (intro sint_lit_ascii) simp
  moreover have "(of_char (bytes f ! fpos f) :: int) \<noteq> of_char CHR 0x0A"
    using assms(2) by (simp only: of_char_eq_iff) simp
  ultimately show ?thesis
    using assms(1) by (subst ffindc.simps) (simp add: freadc_in of_char_not_EOF)
qed

lemma ffindc_skip:
  "bytes f = pre @ cm @ post \<Longrightarrow> CHR 0x0A \<notin> set cm \<Longrightarrow> fpos f = length pre \<Longrightarrow>
   ffindc f (lit CHR 0x0A) = ffindc (f\<lparr>fpos := length pre + length cm\<rparr>) (lit CHR 0x0A)"
proof (induction cm arbitrary: pre f)
  case Nil
  then show ?case by (simp add: fpos_same)
next
  case (Cons x cm)
  have "ffindc f (lit CHR 0x0A) = ffindc (fmove f 1) (lit CHR 0x0A)"
    using Cons.prems by (intro ffindc_step) auto
  also have "\<dots> = ffindc ((fmove f 1)\<lparr>fpos := length (pre @ [x]) + length cm\<rparr>) (lit CHR 0x0A)"
    using Cons.prems by (intro Cons.IH) (simp_all add: fmove_1)
  finally show ?case by (simp add: fmove_1)
qed

lemma ffindc_found:
  assumes "fpos f < length (bytes f)" and "bytes f ! fpos f = CHR 0x0A"
  shows "ffindc f (lit CHR 0x0A) = (10, f)"
  using assms by (subst ffindc.simps) (simp add: freadc_in lit_def EOF_def)

lemma ffindc_at_end:
  assumes "length (bytes f) \<le> fpos f"
  shows "ffindc f c = (EOF, f\<lparr>fpos := fpos f - 1\<rparr>)"
  using assms by (subst ffindc.simps) (simp add: freadc_eof)

lemma iteration_hash:
  assumes "fpos f < length (bytes f)" and "bytes f ! fpos f = CHR ''#''"
    and "0 \<le> stackptr g" and "stackptr g < STACK_SIZE"
  shows "iteration f g = Some (Inr (fmove (snd (ffindc f (lit CHR 0x0A))) 1, g))"
  using assms
  by (simp add: iteration_def freadc_in to_char_def lit_def EOF_def command_def)

lemma iteration_paren:
  assumes "fpos f < length (bytes f)" and "bytes f ! fpos f = CHR ''(''"
    and "0 \<le> stackptr g" and "stackptr g < STACK_SIZE"
  shows "iteration f g =
     (case ffindc_matching f (lit CHR ''('') (lit CHR '')'') 1 of
        None \<Rightarrow> None
      | Some (v, f1) \<Rightarrow> Some (Inr (fmove f1 1, g)))"
  using assms
  by (simp add: iteration_def freadc_in to_char_def lit_def EOF_def command_def split: option.splits)

text \<open>
  C4, as amended. A pass that dispatches a comment opener moves the cursor and changes
  nothing else, whatever the span contains: for \<open>#\<close> the cursor ends just after the next
  newline, or at the end of the script when there is none; for \<open>(\<close> just after the
  matching \<open>)\<close>. Validation, in contrast, counts the brackets inside comments like any
  others: a script without the byte \<open>0xFF\<close> is rejected exactly when the counts of \<open>[\<close> and
  \<open>]\<close>, or of \<open>(\<close> and \<open>)\<close>, over the whole script differ.
\<close>

theorem comment_dispatch_frame:
  assumes "0 \<le> stackptr g" and "stackptr g < STACK_SIZE" and "fpos f = length pre"
  shows "(bytes f = pre @ CHR ''#'' # cm @ CHR 0x0A # post \<and> CHR 0x0A \<notin> set cm \<longrightarrow>
            iteration f g = Some (Inr (f\<lparr>fpos := length pre + length cm + 2\<rparr>, g)))
       \<and> (bytes f = pre @ CHR ''#'' # cm \<and> CHR 0x0A \<notin> set cm \<longrightarrow>
            iteration f g = Some (Inr (f\<lparr>fpos := length pre + length cm + 1\<rparr>, g)))
       \<and> (bytes f = pre @ CHR ''('' # cm @ CHR '')'' # post \<and> balanced CHR ''('' CHR '')'' cm \<longrightarrow>
            iteration f g = Some (Inr (f\<lparr>fpos := length pre + length cm + 2\<rparr>, g)))
       \<and> (CHR 0xFF \<notin> set src \<longrightarrow>
            (\<exists>w. readfile (Some src) g = Some (ERR_MATCHING_BRACKET, Some w, g)) =
            (count_list src CHR ''['' \<noteq> count_list src CHR '']'' \<or>
             count_list src CHR ''('' \<noteq> count_list src CHR '')''))"
proof (intro conjI impI)
  assume h: "bytes f = pre @ CHR ''#'' # cm @ CHR 0x0A # post \<and> CHR 0x0A \<notin> set cm"
  have "ffindc f (lit CHR 0x0A) = ffindc (f\<lparr>fpos := length pre + length (CHR ''#'' # cm)\<rparr>) (lit CHR 0x0A)"
    using h assms(3) by (intro ffindc_skip [where post = "CHR 0x0A # post"]) simp_all
  also have "\<dots> = (10, f\<lparr>fpos := length pre + length (CHR ''#'' # cm)\<rparr>)"
    using h by (intro ffindc_found) (simp_all add: nth_append)
  finally show "iteration f g = Some (Inr (f\<lparr>fpos := length pre + length cm + 2\<rparr>, g))"
    using h assms by (subst iteration_hash) (simp_all add: fmove_1)
next
  assume h: "bytes f = pre @ CHR ''#'' # cm \<and> CHR 0x0A \<notin> set cm"
  have "ffindc f (lit CHR 0x0A) = ffindc (f\<lparr>fpos := length pre + length (CHR ''#'' # cm)\<rparr>) (lit CHR 0x0A)"
    using h assms(3) by (intro ffindc_skip [where post = "[]"]) simp_all
  also have "\<dots> = (EOF, f\<lparr>fpos := length pre + length cm\<rparr>)"
    using h by (subst ffindc_at_end) simp_all
  finally show "iteration f g = Some (Inr (f\<lparr>fpos := length pre + length cm + 1\<rparr>, g))"
    using h assms by (subst iteration_hash) (simp_all add: fmove_1)
next
  assume h: "bytes f = pre @ CHR ''('' # cm @ CHR '')'' # post \<and> balanced CHR ''('' CHR '')'' cm"
  have "ffindc_matching f (lit CHR ''('') (lit CHR '')'') 1 =
      Some (of_char CHR '')'', f\<lparr>fpos := length pre + length cm + 1\<rparr>)"
    using h assms(3) ffindc_matching_scan [of "CHR ''(''" "CHR '')''" cm f pre post 1]
    by simp
  then show "iteration f g = Some (Inr (f\<lparr>fpos := length pre + length cm + 2\<rparr>, g))"
    using h assms by (subst iteration_paren) (simp_all add: fmove_1)
next
  assume "CHR 0xFF \<notin> set src"
  then show "(\<exists>w. readfile (Some src) g = Some (ERR_MATCHING_BRACKET, Some w, g)) =
            (count_list src CHR ''['' \<noteq> count_list src CHR '']'' \<or>
             count_list src CHR ''('' \<noteq> count_list src CHR '')'')"
    by (auto simp: readfile_validation text_part_id level_of_def split: option.splits)
qed

theorem comment_dispatch_frame_witness:
  "iteration \<lparr>bytes = ''+# x\<newline>-'', fpos = 1\<rparr> (globals0 []) =
     Some (Inr (\<lparr>bytes = ''+# x\<newline>-'', fpos = 5\<rparr>, globals0 []))
   \<and> iteration \<lparr>bytes = ''+#]'', fpos = 1\<rparr> (globals0 []) =
     Some (Inr (\<lparr>bytes = ''+#]'', fpos = 3\<rparr>, globals0 []))
   \<and> balanced CHR ''('' CHR '')'' ''a[b''
   \<and> iteration \<lparr>bytes = ''+(a[b)-'', fpos = 1\<rparr> (globals0 []) =
     Some (Inr (\<lparr>bytes = ''+(a[b)-'', fpos = 6\<rparr>, globals0 []))
   \<and> CHR 0xFF \<notin> set ''#[\<newline>''
   \<and> (\<exists>w. readfile (Some ''#[\<newline>'') (globals0 []) = Some (ERR_MATCHING_BRACKET, Some w, globals0 []))"
proof -
  have b: "0 \<le> stackptr (globals0 [])" "stackptr (globals0 []) < STACK_SIZE"
    by (simp_all add: globals0_def STACK_SIZE_def)
  have bal: "balanced CHR ''('' CHR '')'' ''a[b''"
    by (intro balanced.intros; simp)+
  have 1: "iteration \<lparr>bytes = ''+# x\<newline>-'', fpos = 1\<rparr> (globals0 []) =
     Some (Inr (\<lparr>bytes = ''+# x\<newline>-'', fpos = 5\<rparr>, globals0 []))"
    using comment_dispatch_frame [OF b, where f = "\<lparr>bytes = ''+# x\<newline>-'', fpos = 1\<rparr>"
        and pre = "''+''" and cm = "'' x''" and post = "''-''", THEN conjunct1]
    by simp
  have 2: "iteration \<lparr>bytes = ''+#]'', fpos = 1\<rparr> (globals0 []) =
     Some (Inr (\<lparr>bytes = ''+#]'', fpos = 3\<rparr>, globals0 []))"
    using comment_dispatch_frame [OF b, where f = "\<lparr>bytes = ''+#]'', fpos = 1\<rparr>"
        and pre = "''+''" and cm = "'']''", THEN conjunct2, THEN conjunct1]
    by simp
  have 3: "iteration \<lparr>bytes = ''+(a[b)-'', fpos = 1\<rparr> (globals0 []) =
     Some (Inr (\<lparr>bytes = ''+(a[b)-'', fpos = 6\<rparr>, globals0 []))"
    using bal comment_dispatch_frame [OF b, where f = "\<lparr>bytes = ''+(a[b)-'', fpos = 1\<rparr>"
        and pre = "''+''" and cm = "''a[b''" and post = "''-''", THEN conjunct2, THEN conjunct2, THEN conjunct1]
    by simp
  have 4: "\<exists>w. readfile (Some ''#[\<newline>'') (globals0 []) = Some (ERR_MATCHING_BRACKET, Some w, globals0 [])"
    using comment_dispatch_frame [OF b, where f = "\<lparr>bytes = ''+#]'', fpos = 1\<rparr>"
        and pre = "''+''" and src = "''#[\<newline>''", THEN conjunct2, THEN conjunct2, THEN conjunct2]
    by simp
  show ?thesis using 1 2 bal 3 4 by simp
qed

text \<open>
  The claim as it was stated fails on the content of a \<open>#\<close> line. A lone \<open>[\<close> there makes
  validation reject the script. And with brackets in its \<open>#\<close> lines that balance over the
  script, the fourth script below runs the \<open>+>\<close> of a loop entered on a zero cell, because
  the scan of \<open>[\<close> stops at the \<open>]\<close> inside the comment; the third script, the same with
  the two brackets taken out of the comments, leaves the tape untouched.
\<close>

theorem comment_contents_counterexample:
  "readfile (Some ''#\<newline>'') (globals0 []) = Some (ERR_OK, None, globals0 [])
   \<and> readfile (Some ''#[\<newline>'') (globals0 []) = Some (ERR_MATCHING_BRACKET, Some 3, globals0 [])
   \<and> readfile (Some ''#\<newline>[#\<newline>+>]'') (globals0 []) =
        Some (ERR_OK, None, (globals0 [])\<lparr>depth := 1\<rparr>)
   \<and> readfile (Some ''#[\<newline>[#]\<newline>+>]'') (globals0 []) =
        Some (ERR_OK, None, (globals0 [])\<lparr>stack := (stack (globals0 []))[0 := 1], stackptr := 1\<rparr>)"
  by (simp add: run_defs check_matching_brackets_loop.simps interpret_file.simps
      jump_forward_loop.simps jump_backward_loop.simps ffindc.simps)

end
